theory Spec2Isabelle
  imports
    Main
    "HOL-Library.AList"
    "HOL-Library.Char_ord"
    "HOL-Library.List_Lexorder"
    "HOL-Library.Product_Lexorder"
begin

section \<open>Values, dictionaries and errors\<close>

text \<open>
  The program (\<^verbatim>\<open>src/main.py\<close>) exports and imports the DNS host records of a
  domain. A record is a Python \<^verbatim>\<open>dict\<close> with string keys. The values that come
  from the provider are strings (attributes of a \<^verbatim>\<open>host\<close> element); the values that
  come from the desired-state document are what the document's scalars parse to, of
  which strings and integers are modelled. A \<^verbatim>\<open>dict\<close> keeps its keys in insertion
  order, so it is an association list; a well-formed one has distinct keys. A
  \<open>string\<close> is read as a sequence of code points below 256.
\<close>

datatype jvalue = JStr string | JInt int

type_synonym pydict = "(string \<times> jvalue) list"

datatype error = KeyError string | HTTPError | BadResponse | YAMLError | TypeError | AttributeError

text \<open>
  \<^verbatim>\<open>d[k]\<close> and \<^verbatim>\<open>d.pop(k)\<close> raise \<^verbatim>\<open>KeyError\<close> on a missing key;
  \<^verbatim>\<open>d.pop(k, None)\<close> does not. \<^verbatim>\<open>d[k] = v\<close> is \<^const>\<open>AList.update\<close>: an existing
  key keeps its position, a new key goes to the end.
\<close>

definition getitem :: "pydict \<Rightarrow> string \<Rightarrow> error + jvalue" where
  "getitem d k = (case map_of d k of None \<Rightarrow> Inl (KeyError k) | Some v \<Rightarrow> Inr v)"

definition pop :: "string \<Rightarrow> pydict \<Rightarrow> error + (jvalue \<times> pydict)" where
  "pop k d = (case map_of d k of None \<Rightarrow> Inl (KeyError k) | Some v \<Rightarrow> Inr (v, AList.delete k d))"

definition pop_default :: "string \<Rightarrow> pydict \<Rightarrow> pydict" where
  "pop_default k d = AList.delete k d"

section \<open>The serialisation \<^verbatim>\<open>json.dumps(d, sort_keys=True)\<close>\<close>

text \<open>
  Decimal numerals, as \<^verbatim>\<open>str\<close> and the f-string \<^verbatim>\<open>f"{key}{num}"\<close> print them.
\<close>

definition digit_char :: "nat \<Rightarrow> char" where
  "digit_char d = ''0123456789abcdef'' ! d"

fun str_nat :: "nat \<Rightarrow> string" where
  "str_nat n = (if n < 10 then [digit_char n] else str_nat (n div 10) @ [digit_char (n mod 10)])"

declare str_nat.simps [simp del]

definition str_int :: "int \<Rightarrow> string" where
  "str_int i = (if i < 0 then CHR ''-'' # str_nat (nat (- i)) else str_nat (nat i))"

text \<open>
  The string encoder of the \<^verbatim>\<open>json\<close> module with \<^verbatim>\<open>ensure_ascii\<close> (the default):
  the quote and the backslash get a backslash, five control characters have a short
  escape, the other printable ASCII characters (space to tilde) stand for themselves and
  everything else becomes \<^verbatim>\<open>\u00xy\<close> with lower-case hexadecimal digits.
\<close>

definition esc_char :: "char \<Rightarrow> string" where
  "esc_char c =
     (if c = CHR 0x22 then [CHR 0x5C, CHR 0x22]
      else if c = CHR 0x5C then [CHR 0x5C, CHR 0x5C]
      else if c = CHR 0x08 then [CHR 0x5C, CHR ''b'']
      else if c = CHR 0x0C then [CHR 0x5C, CHR ''f'']
      else if c = CHR 0x0A then [CHR 0x5C, CHR ''n'']
      else if c = CHR 0x0D then [CHR 0x5C, CHR ''r'']
      else if c = CHR 0x09 then [CHR 0x5C, CHR ''t'']
      else if 32 \<le> (of_char c :: nat) \<and> (of_char c :: nat) \<le> 126 then [c]
      else [CHR 0x5C, CHR ''u'', CHR ''0'', CHR ''0'',
            digit_char (of_char c div 16), digit_char (of_char c mod 16)])"

definition json_str :: "string \<Rightarrow> string" where
  "json_str s = CHR 0x22 # concat (map esc_char s) @ [CHR 0x22]"

fun json_value :: "jvalue \<Rightarrow> string" where
  "json_value (JStr s) = json_str s"
| "json_value (JInt i) = str_int i"

definition json_item :: "string \<times> jvalue \<Rightarrow> string" where
  "json_item kv = json_str (fst kv) @ '': '' @ json_value (snd kv)"

fun join :: "string \<Rightarrow> string list \<Rightarrow> string" where
  "join sep [] = []"
| "join sep [x] = x"
| "join sep (x # y # ys) = x @ sep @ join sep (y # ys)"

text \<open>
  \<^verbatim>\<open>sort_keys=True\<close> writes the items in the order of their keys (strings compare
  by code point); the separators are the default \<^verbatim>\<open>", "\<close> and \<^verbatim>\<open>": "\<close>.
\<close>

definition json_dumps :: "pydict \<Rightarrow> string" where
  "json_dumps d = ''{'' @ join '', '' (map json_item (sort_key fst d)) @ ''}''"

section \<open>Identities: \<^verbatim>\<open>dict_hash\<close>\<close>

text \<open>
  \<^verbatim>\<open>
  def dict_hash(d):
      d = d.copy()
      name = d.pop("HostName")
      type_ = d.pop("RecordType")
      return (type_, name, json.dumps(d, sort_keys=True))
  \<close>
\<close>

type_synonym ident = "jvalue \<times> jvalue \<times> string"

definition dict_hash :: "pydict \<Rightarrow> error + ident" where
  "dict_hash d =
     (case pop ''HostName'' d of
        Inl e \<Rightarrow> Inl e
      | Inr (name, d1) \<Rightarrow>
          (case pop ''RecordType'' d1 of
             Inl e \<Rightarrow> Inl e
           | Inr (type_, d2) \<Rightarrow> Inr (type_, name, json_dumps d2)))"

text \<open>
  \<^verbatim>\<open>sorted(records, key=dict_hash)\<close> compares identities as tuples, component by
  component. Python compares two strings or two integers and raises on a string against
  an integer; the order below puts integers first there. Every identity that the
  program sorts comes from the provider and consists of strings only.
\<close>

instantiation jvalue :: linorder
begin

fun less_eq_jvalue :: "jvalue \<Rightarrow> jvalue \<Rightarrow> bool" where
  "less_eq_jvalue (JStr a) (JStr b) = (a \<le> b)"
| "less_eq_jvalue (JInt a) (JInt b) = (a \<le> b)"
| "less_eq_jvalue (JInt a) (JStr b) = True"
| "less_eq_jvalue (JStr a) (JInt b) = False"

definition less_jvalue :: "jvalue \<Rightarrow> jvalue \<Rightarrow> bool" where
  "less_jvalue x y = (x \<le> y \<and> \<not> y \<le> x)"

instance
proof
  fix x y z :: jvalue
  show "(x < y) = (x \<le> y \<and> \<not> y \<le> x)" by (simp add: less_jvalue_def)
  show "x \<le> x" by (cases x) simp_all
  show "x \<le> y \<Longrightarrow> y \<le> z \<Longrightarrow> x \<le> z" by (cases x; cases y; cases z) simp_all
  show "x \<le> y \<Longrightarrow> y \<le> x \<Longrightarrow> x = y" by (cases x; cases y) simp_all
  show "x \<le> y \<or> y \<le> x" by (cases x; cases y) auto
qed

end

section \<open>The provider\<close>

text \<open>
  \<^verbatim>\<open>requests.post\<close> is the only access to the provider. Its answer is a function of
  the request: a failure of the transport or of \<^verbatim>\<open>raise_for_status\<close>, or a response
  document with its \<^verbatim>\<open>Status\<close> attribute and the attributes of its \<^verbatim>\<open>host\<close>
  elements. What a run does is recorded as a list of events: the requests posted and the
  lines printed.
\<close>

type_synonym attrib = "(string \<times> string) list"

datatype reply = Failure | Response "string option" "attrib list"

type_synonym provider = "pydict \<Rightarrow> reply"

datatype event = Post pydict | Removing pydict | Adding pydict

text \<open>
  \<^verbatim>\<open>
  def make_namecheap_request(config, data):
      request = data.copy()
      request.update({"ApiUser": config["ApiUser"], "UserName": config["UserName"],
                      "ApiKey": config["ApiKey"], "ClientIP": config["ClientIP"]})
      response = requests.post(namecheap_api_url, request)
      response.raise_for_status()
      response_xml = etree.XML(response.content)
      if response_xml.get("Status") != "OK":
          raise Exception("Bad response: {}".format(response.content))
      return response_xml
  \<close>
\<close>

definition make_namecheap_request ::
  "provider \<Rightarrow> pydict \<Rightarrow> pydict \<Rightarrow> (error + attrib list) \<times> event list" where
  "make_namecheap_request P config data =
     (case getitem config ''ApiUser'' of Inl e \<Rightarrow> (Inl e, []) | Inr api_user \<Rightarrow>
     (case getitem config ''UserName'' of Inl e \<Rightarrow> (Inl e, []) | Inr user_name \<Rightarrow>
     (case getitem config ''ApiKey'' of Inl e \<Rightarrow> (Inl e, []) | Inr api_key \<Rightarrow>
     (case getitem config ''ClientIP'' of Inl e \<Rightarrow> (Inl e, []) | Inr client_ip \<Rightarrow>
        (let request = AList.update ''ClientIP'' client_ip
                        (AList.update ''ApiKey'' api_key
                          (AList.update ''UserName'' user_name
                            (AList.update ''ApiUser'' api_user data)))
         in (case P request of
               Failure \<Rightarrow> (Inl HTTPError, [Post request])
             | Response status hosts \<Rightarrow>
                 if status \<noteq> Some ''OK'' then (Inl BadResponse, [Post request])
                 else (Inr hosts, [Post request])))))))"

section \<open>Reading the current records: \<^verbatim>\<open>get_records\<close>\<close>

text \<open>
  The body of the loop of \<^verbatim>\<open>get_records\<close>, on one record:
  \<^verbatim>\<open>
      record.pop("AssociatedAppTitle", None)
      record.pop("FriendlyName", None)
      record.pop("HostId", None)
      record["HostName"] = record.pop("Name")
      record.pop("IsActive", None)
      record.pop("IsDDNSEnabled", None)
      if record["Type"] != "MX":
          record.pop("MXPref", None)
      record["RecordType"] = record.pop("Type")
      if record["TTL"] == "1800":
          record.pop("TTL")
  \<close>
\<close>

definition get_records_step :: "pydict \<Rightarrow> error + pydict" where
  "get_records_step record0 =
     (let record1 = pop_default ''HostId'' (pop_default ''FriendlyName''
                      (pop_default ''AssociatedAppTitle'' record0))
      in (case pop ''Name'' record1 of Inl e \<Rightarrow> Inl e | Inr (name, record2) \<Rightarrow>
         (let record3 = AList.update ''HostName'' name record2;
              record4 = pop_default ''IsDDNSEnabled'' (pop_default ''IsActive'' record3)
          in (case getitem record4 ''Type'' of Inl e \<Rightarrow> Inl e | Inr ty \<Rightarrow>
         (let record5 = (if ty \<noteq> JStr ''MX'' then pop_default ''MXPref'' record4 else record4)
          in (case pop ''Type'' record5 of Inl e \<Rightarrow> Inl e | Inr (type_, record6) \<Rightarrow>
         (let record7 = AList.update ''RecordType'' type_ record6
          in (case getitem record7 ''TTL'' of Inl e \<Rightarrow> Inl e | Inr ttl \<Rightarrow>
             if ttl = JStr ''1800'' then Inr (pop_default ''TTL'' record7)
             else Inr record7))))))))"

text \<open>
  The record as it stands when the body reaches the test of the TTL (\<^verbatim>\<open>record7\<close>
  above), for a record whose \<^verbatim>\<open>Name\<close> and \<^verbatim>\<open>Type\<close> are given.
\<close>

definition record7 :: "pydict \<Rightarrow> jvalue \<Rightarrow> jvalue \<Rightarrow> pydict" where
  "record7 r name ty =
     (let r4 = AList.delete ''IsDDNSEnabled'' (AList.delete ''IsActive''
                 (AList.update ''HostName'' name (AList.delete ''Name''
                   (AList.delete ''HostId'' (AList.delete ''FriendlyName''
                     (AList.delete ''AssociatedAppTitle'' r))))))
      in AList.update ''RecordType'' ty (AList.delete ''Type''
           (if ty \<noteq> JStr ''MX'' then AList.delete ''MXPref'' r4 else r4)))"

fun get_records_loop :: "pydict list \<Rightarrow> error + pydict list" where
  "get_records_loop [] = Inr []"
| "get_records_loop (r # rs) =
     (case get_records_step r of
        Inl e \<Rightarrow> Inl e
      | Inr r' \<Rightarrow> (case get_records_loop rs of Inl e \<Rightarrow> Inl e | Inr rs' \<Rightarrow> Inr (r' # rs')))"

text \<open>\<^verbatim>\<open>dict(h.attrib)\<close>: the attributes of an element, all of them strings.\<close>

definition dict_of_attrib :: "attrib \<Rightarrow> pydict" where
  "dict_of_attrib h = map (\<lambda>(k, v). (k, JStr v)) h"

definition get_hosts_request :: "string \<Rightarrow> string \<Rightarrow> pydict" where
  "get_hosts_request sld tld =
     [(''Command'', JStr ''namecheap.domains.dns.getHosts''),
      (''SLD'', JStr sld), (''TLD'', JStr tld)]"

definition get_records ::
  "provider \<Rightarrow> pydict \<Rightarrow> string \<Rightarrow> string \<Rightarrow> (error + pydict list) \<times> event list" where
  "get_records P config sld tld =
     (case make_namecheap_request P config (get_hosts_request sld tld) of
        (Inl e, t) \<Rightarrow> (Inl e, t)
      | (Inr host_elements, t) \<Rightarrow> (get_records_loop (map dict_of_attrib host_elements), t))"

section \<open>The two collections and the two comparisons\<close>

text \<open>
  \<^verbatim>\<open>{dict_hash(r): r for r in records}\<close>: the records are entered one after the
  other under their identity, and the first \<^verbatim>\<open>KeyError\<close> ends the comprehension.
\<close>

type_synonym collection = "(ident \<times> pydict) list"

fun dict_by_hash :: "pydict list \<Rightarrow> collection \<Rightarrow> error + collection" where
  "dict_by_hash [] acc = Inr acc"
| "dict_by_hash (r # rs) acc =
     (case dict_hash r of
        Inl e \<Rightarrow> Inl e
      | Inr k \<Rightarrow> dict_by_hash rs (AList.update k r acc))"

text \<open>
  The desired-state document, as \<^verbatim>\<open>yaml.safe_load\<close> and the loop over its result
  treat it. The text may be malformed (\<^verbatim>\<open>YAMLError\<close>); it may load as a value that
  cannot be iterated, which is \<^verbatim>\<open>None\<close> for an empty document, or a number
  (\<^verbatim>\<open>TypeError\<close> at \<^verbatim>\<open>for r in new_records\<close>); otherwise the loop runs over
  its items: the elements of a sequence, the keys of a mapping, the characters of a
  string. An item is a mapping with string keys and string or integer values, or a
  scalar or null (\<^verbatim>\<open>dict_hash\<close> raises \<^verbatim>\<open>AttributeError\<close>: no method
  \<^verbatim>\<open>copy\<close>), or something else that \<^verbatim>\<open>dict_hash\<close> or the insertion under its
  result rejects with \<^verbatim>\<open>TypeError\<close>: a sequence, a mapping with a value that
  \<^verbatim>\<open>json.dumps\<close> does not serialise, a mapping whose host name or record type
  cannot be hashed.
\<close>

datatype yaml_item = Mapping pydict | Scalar | Unloadable

datatype yaml_document = Malformed | NotIterable | Items "yaml_item list"

record args =
  sld :: string
  tld :: string
  dryrun :: bool
  input_file :: yaml_document

text \<open>
  The field \<open>input_file\<close> stands for the text of the document.
  \<^verbatim>\<open>
  def get_new(args):
      new_records = yaml.safe_load(args.input_file)
      new = {dict_hash(r): r for r in new_records}
      return new
  \<close>
\<close>

fun dict_by_hash_items :: "yaml_item list \<Rightarrow> collection \<Rightarrow> error + collection" where
  "dict_by_hash_items [] acc = Inr acc"
| "dict_by_hash_items (Mapping r # rs) acc =
     (case dict_hash r of
        Inl e \<Rightarrow> Inl e
      | Inr k \<Rightarrow> dict_by_hash_items rs (AList.update k r acc))"
| "dict_by_hash_items (Scalar # rs) acc = Inl AttributeError"
| "dict_by_hash_items (Unloadable # rs) acc = Inl TypeError"

definition get_new :: "args \<Rightarrow> error + collection" where
  "get_new a =
     (case input_file a of
        Malformed \<Rightarrow> Inl YAMLError
      | NotIterable \<Rightarrow> Inl TypeError
      | Items new_records \<Rightarrow> dict_by_hash_items new_records [])"

text \<open>The mappings among the items of a document.\<close>

fun mappings :: "yaml_item list \<Rightarrow> pydict list" where
  "mappings [] = []"
| "mappings (Mapping r # rs) = r # mappings rs"
| "mappings (Scalar # rs) = mappings rs"
| "mappings (Unloadable # rs) = mappings rs"

fun document_records :: "yaml_document \<Rightarrow> pydict list" where
  "document_records (Items its) = mappings its"
| "document_records Malformed = []"
| "document_records NotIterable = []"

definition get_current :: "provider \<Rightarrow> args \<Rightarrow> pydict \<Rightarrow> (error + collection) \<times> event list" where
  "get_current P a config =
     (case get_records P config (sld a) (tld a) of
        (Inl e, t) \<Rightarrow> (Inl e, t)
      | (Inr current_records, t) \<Rightarrow> (dict_by_hash current_records [], t))"

text \<open>
  \<^verbatim>\<open>
  def remove_unused_records(current, new):
      changed = False
      for r in current.keys():
          if r not in new:
              print(f"Removing {current[r]}")
              changed = True
      return changed
  \<close>
  and \<^verbatim>\<open>add_new_records\<close> likewise, over \<^verbatim>\<open>new.keys()\<close> with \<^verbatim>\<open>r not in current\<close>.
  The loop state is \<^verbatim>\<open>changed\<close> and the lines printed so far; the loop runs over
  the items, \<^verbatim>\<open>current[r]\<close> being the value stored under the key \<^verbatim>\<open>r\<close>.
\<close>

fun remove_unused_loop :: "collection \<Rightarrow> collection \<Rightarrow> bool \<times> event list \<Rightarrow> bool \<times> event list" where
  "remove_unused_loop [] new st = st"
| "remove_unused_loop ((r, rec) # rest) new (changed, out) =
     (if r \<notin> fst ` set new then remove_unused_loop rest new (True, out @ [Removing rec])
      else remove_unused_loop rest new (changed, out))"

definition remove_unused_records :: "collection \<Rightarrow> collection \<Rightarrow> bool \<times> event list" where
  "remove_unused_records current new = remove_unused_loop current new (False, [])"

fun add_new_loop :: "collection \<Rightarrow> collection \<Rightarrow> bool \<times> event list \<Rightarrow> bool \<times> event list" where
  "add_new_loop current [] st = st"
| "add_new_loop current ((r, rec) # rest) (changed, out) =
     (if r \<notin> fst ` set current then add_new_loop current rest (True, out @ [Adding rec])
      else add_new_loop current rest (changed, out))"

definition add_new_records :: "collection \<Rightarrow> collection \<Rightarrow> bool \<times> event list" where
  "add_new_records current new = add_new_loop current new (False, [])"

section \<open>Import\<close>

text \<open>
  \<^verbatim>\<open>
      data = {"Command": "namecheap.domains.dns.setHosts", "SLD": args.sld, "TLD": args.tld}
      for num, record in zip(count(1), new.values()):
          for key, value in record.items():
              data[f"{key}{num}"] = value
  \<close>
\<close>

definition set_hosts_header :: "args \<Rightarrow> pydict" where
  "set_hosts_header a =
     [(''Command'', JStr ''namecheap.domains.dns.setHosts''),
      (''SLD'', JStr (sld a)), (''TLD'', JStr (tld a))]"

fun add_record :: "nat \<Rightarrow> pydict \<Rightarrow> pydict \<Rightarrow> pydict" where
  "add_record num [] data = data"
| "add_record num ((key, v) # items) data =
     add_record num items (AList.update (key @ str_nat num) v data)"

fun add_records :: "nat \<Rightarrow> pydict list \<Rightarrow> pydict \<Rightarrow> pydict" where
  "add_records num [] data = data"
| "add_records num (record # records) data =
     add_records (Suc num) records (add_record num record data)"

definition build_data :: "args \<Rightarrow> collection \<Rightarrow> pydict" where
  "build_data a new = add_records 1 (map snd new) (set_hosts_header a)"

text \<open>A field name that ends in a decimal digit.\<close>

definition ends_in_digit :: "string \<Rightarrow> bool" where
  "ends_in_digit key = (key \<noteq> [] \<and> last key \<in> set ''0123456789'')"

text \<open>
  \<^verbatim>\<open>
  def do_import(args, config):
      current = get_current(args, config)
      new = get_new(args)
      updated_removed = remove_unused_records(current, new)
      updated_added = add_new_records(current, new)
      if not updated_removed or not updated_added:
          return
      data = ...
      if not args.dryrun:
          make_namecheap_request(config, data)
  \<close>
\<close>

definition do_import :: "provider \<Rightarrow> args \<Rightarrow> pydict \<Rightarrow> (error + unit) \<times> event list" where
  "do_import P a config =
     (case get_current P a config of
        (Inl e, t1) \<Rightarrow> (Inl e, t1)
      | (Inr current, t1) \<Rightarrow>
          (case get_new a of
             Inl e \<Rightarrow> (Inl e, t1)
           | Inr new \<Rightarrow>
               (case remove_unused_records current new of (updated_removed, t2) \<Rightarrow>
                case add_new_records current new of (updated_added, t3) \<Rightarrow>
                  if \<not> updated_removed \<or> \<not> updated_added then (Inr (), t1 @ t2 @ t3)
                  else
                    let data = build_data a new
                    in if \<not> dryrun a
                       then (case make_namecheap_request P config data of
                               (Inl e, t4) \<Rightarrow> (Inl e, t1 @ t2 @ t3 @ t4)
                             | (Inr response, t4) \<Rightarrow> (Inr (), t1 @ t2 @ t3 @ t4))
                       else (Inr (), t1 @ t2 @ t3))))"

text \<open>A submission is a posted request with the write command.\<close>

fun is_submission :: "event \<Rightarrow> bool" where
  "is_submission (Post request) =
     (map_of request ''Command'' = Some (JStr ''namecheap.domains.dns.setHosts''))"
| "is_submission (Removing rec) = False"
| "is_submission (Adding rec) = False"

definition submissions :: "event list \<Rightarrow> event list" where
  "submissions t = filter is_submission t"

section \<open>Export\<close>

text \<open>
  \<^verbatim>\<open>
  def do_export(args, config):
      records = get_records(config, args.sld, args.tld)
      yaml.dump(sorted(records, key=dict_hash), args.output_file)
  \<close>
  \<^verbatim>\<open>sorted\<close> computes the key of every record first (a \<^verbatim>\<open>KeyError\<close> there ends
  it), then sorts by the keys alone, keeping records with equal keys in their order.
\<close>

fun hash_all :: "pydict list \<Rightarrow> error + ident list" where
  "hash_all [] = Inr []"
| "hash_all (r # rs) =
     (case dict_hash r of
        Inl e \<Rightarrow> Inl e
      | Inr k \<Rightarrow> (case hash_all rs of Inl e \<Rightarrow> Inl e | Inr ks \<Rightarrow> Inr (k # ks)))"

definition sorted_by_hash :: "pydict list \<Rightarrow> error + pydict list" where
  "sorted_by_hash records =
     (case hash_all records of
        Inl e \<Rightarrow> Inl e
      | Inr keys \<Rightarrow> Inr (map snd (sort_key fst (zip keys records))))"

text \<open>
  The document that \<^verbatim>\<open>yaml.dump\<close> writes is given by what
  \<^verbatim>\<open>yaml.safe_load\<close> reads back from it: the same sequence of mappings with the
  same scalars, the keys of each mapping sorted (the default of \<^verbatim>\<open>yaml.dump\<close>).
\<close>

definition yaml_dump :: "pydict list \<Rightarrow> yaml_document" where
  "yaml_dump records = Items (map (\<lambda>r. Mapping (sort_key fst r)) records)"

definition do_export :: "provider \<Rightarrow> args \<Rightarrow> pydict \<Rightarrow> (error + yaml_document) \<times> event list" where
  "do_export P a config =
     (case get_records P config (sld a) (tld a) of
        (Inl e, t) \<Rightarrow> (Inl e, t)
      | (Inr records, t) \<Rightarrow>
          (case sorted_by_hash records of
             Inl e \<Rightarrow> (Inl e, t)
           | Inr sorted_records \<Rightarrow> (Inr (yaml_dump sorted_records), t)))"

section \<open>Example inputs\<close>

text \<open>
  A configuration with the four credentials, a provider that answers every request with
  one host record (\<^verbatim>\<open>www A 1.2.3.4\<close>, the default TTL), arguments whose document is a
  sequence of records, and some desired records.
\<close>

definition example_config :: pydict where
  "example_config =
     [(''ApiUser'', JStr ''user''), (''UserName'', JStr ''user''),
      (''ApiKey'', JStr ''key''), (''ClientIP'', JStr ''192.0.2.1'')]"

definition example_host :: attrib where
  "example_host =
     [(''HostId'', ''12''), (''Name'', ''www''), (''Type'', ''A''), (''Address'', ''1.2.3.4''),
      (''MXPref'', ''10''), (''TTL'', ''1800''), (''AssociatedAppTitle'', []),
      (''FriendlyName'', []), (''IsActive'', ''true''), (''IsDDNSEnabled'', ''false'')]"

definition example_provider :: provider where
  "example_provider request = Response (Some ''OK'') [example_host]"

definition example_args :: "bool \<Rightarrow> pydict list \<Rightarrow> args" where
  "example_args dry records =
     \<lparr>sld = ''example'', tld = ''com'', dryrun = dry, input_file = Items (map Mapping records)\<rparr>"

definition rec_www :: pydict where
  "rec_www = [(''HostName'', JStr ''www''), (''RecordType'', JStr ''A''), (''Address'', JStr ''1.2.3.4'')]"

definition rec_mail :: pydict where
  "rec_mail = [(''HostName'', JStr ''mail''), (''RecordType'', JStr ''A''), (''Address'', JStr ''1.2.3.5'')]"

definition example_read_request :: pydict where
  "example_read_request =
     [(''Command'', JStr ''namecheap.domains.dns.getHosts''),
      (''SLD'', JStr ''example''), (''TLD'', JStr ''com''),
      (''ApiUser'', JStr ''user''), (''UserName'', JStr ''user''),
      (''ApiKey'', JStr ''key''), (''ClientIP'', JStr ''192.0.2.1'')]"

text \<open>The record that \<^const>\<open>get_records\<close> makes of \<^const>\<open>example_host\<close>, and two identities.\<close>

definition current_www :: pydict where
  "current_www = [(''Address'', JStr ''1.2.3.4''), (''HostName'', JStr ''www''), (''RecordType'', JStr ''A'')]"

definition ident_www :: ident where
  "ident_www = (JStr ''A'', JStr ''www'', ''{'' @ json_str ''Address'' @ '': '' @ json_str ''1.2.3.4'' @ ''}'')"

definition ident_mail :: ident where
  "ident_mail = (JStr ''A'', JStr ''mail'', ''{'' @ json_str ''Address'' @ '': '' @ json_str ''1.2.3.5'' @ ''}'')"

definition rec_nameless :: pydict where
  "rec_nameless = [(''RecordType'', JStr ''A''), (''Address'', JStr ''1.2.3.4'')]"

definition example_write_request :: pydict where
  "example_write_request =
     [(''Command'', JStr ''namecheap.domains.dns.setHosts''),
      (''SLD'', JStr ''example''), (''TLD'', JStr ''com''),
      (''HostName1'', JStr ''mail''), (''RecordType1'', JStr ''A''),
      (''Address1'', JStr ''1.2.3.5''),
      (''ApiUser'', JStr ''user''), (''UserName'', JStr ''user''),
      (''ApiKey'', JStr ''key''), (''ClientIP'', JStr ''192.0.2.1'')]"

definition rec_www_new :: pydict where
  "rec_www_new = [(''HostName'', JStr ''www''), (''RecordType'', JStr ''A''), (''Address'', JStr ''5.6.7.8'')]"

definition ident_www_new :: ident where
  "ident_www_new = (JStr ''A'', JStr ''www'', ''{'' @ json_str ''Address'' @ '': '' @ json_str ''5.6.7.8'' @ ''}'')"

definition example_write_request2 :: pydict where
  "example_write_request2 =
     [(''Command'', JStr ''namecheap.domains.dns.setHosts''),
      (''SLD'', JStr ''example''), (''TLD'', JStr ''com''),
      (''HostName1'', JStr ''www''), (''RecordType1'', JStr ''A''),
      (''Address1'', JStr ''5.6.7.8''),
      (''HostName2'', JStr ''mail''), (''RecordType2'', JStr ''A''),
      (''Address2'', JStr ''1.2.3.5''),
      (''ApiUser'', JStr ''user''), (''UserName'', JStr ''user''),
      (''ApiKey'', JStr ''key''), (''ClientIP'', JStr ''192.0.2.1'')]"

text \<open>A provider with two host records, the mail exchanger first.\<close>

definition example_host_mx :: attrib where
  "example_host_mx =
     [(''HostId'', ''13''), (''Name'', ''@''), (''Type'', ''MX''), (''Address'', ''mail.example.com.''),
      (''MXPref'', ''10''), (''TTL'', ''3600''), (''AssociatedAppTitle'', []),
      (''FriendlyName'', []), (''IsActive'', ''true''), (''IsDDNSEnabled'', ''false'')]"

definition example_provider2 :: provider where
  "example_provider2 request = Response (Some ''OK'') [example_host_mx, example_host]"

definition current_mx :: pydict where
  "current_mx =
     [(''Address'', JStr ''mail.example.com.''), (''MXPref'', JStr ''10''), (''TTL'', JStr ''3600''),
      (''HostName'', JStr ''@''), (''RecordType'', JStr ''MX'')]"

definition exported_mx :: pydict where
  "exported_mx =
     [(''Address'', JStr ''mail.example.com.''), (''HostName'', JStr ''@''), (''MXPref'', JStr ''10''),
      (''RecordType'', JStr ''MX''), (''TTL'', JStr ''3600'')]"

text \<open>The record of \<^const>\<open>example_host\<close> as a document declares it, with its TTL.\<close>

definition rec_www_ttl :: pydict where
  "rec_www_ttl =
     [(''HostName'', JStr ''www''), (''RecordType'', JStr ''A''), (''Address'', JStr ''1.2.3.4''),
      (''TTL'', JInt 1800)]"

definition ident_www_ttl :: ident where
  "ident_www_ttl =
     (JStr ''A'', JStr ''www'',
      ''{'' @ json_str ''Address'' @ '': '' @ json_str ''1.2.3.4'' @ '', ''
        @ json_str ''TTL'' @ '': 1800}'')"


text \<open>The record \<^const>\<open>rec_mail\<close> written with its fields in another order.\<close>

definition rec_mail2 :: pydict where
  "rec_mail2 = [(''Address'', JStr ''1.2.3.5''), (''HostName'', JStr ''mail''), (''RecordType'', JStr ''A'')]"

definition example_write_request4 :: pydict where
  "example_write_request4 =
     [(''Command'', JStr ''namecheap.domains.dns.setHosts''),
      (''SLD'', JStr ''example''), (''TLD'', JStr ''com''),
      (''Address1'', JStr ''1.2.3.5''), (''HostName1'', JStr ''mail''),
      (''RecordType1'', JStr ''A''),
      (''HostName2'', JStr ''www''), (''RecordType2'', JStr ''A''),
      (''Address2'', JStr ''5.6.7.8''),
      (''ApiUser'', JStr ''user''), (''UserName'', JStr ''user''),
      (''ApiKey'', JStr ''key''), (''ClientIP'', JStr ''192.0.2.1'')]"

section \<open>The comparisons as set differences\<close>

lemma remove_unused_loop_eq:
  "remove_unused_loop current new (changed, out) =
     (changed \<or> \<not> fst ` set current \<subseteq> fst ` set new,
      out @ map (\<lambda>p. Removing (snd p)) (filter (\<lambda>p. fst p \<notin> fst ` set new) current))"
  by (induction current new "(changed, out)" arbitrary: changed out rule: remove_unused_loop.induct) auto

lemma add_new_loop_eq:
  "add_new_loop current new (changed, out) =
     (changed \<or> \<not> fst ` set new \<subseteq> fst ` set current,
      out @ map (\<lambda>p. Adding (snd p)) (filter (\<lambda>p. fst p \<notin> fst ` set current) new))"
  by (induction current new "(changed, out)" arbitrary: changed out rule: add_new_loop.induct) auto

section \<open>The events of a run\<close>

lemma make_namecheap_request_events:
  "make_namecheap_request P config data = (res, t) \<Longrightarrow>
     t = [] \<or> (\<exists>request. t = [Post request] \<and> map_of request ''Command'' = map_of data ''Command'')"
  by (auto simp: make_namecheap_request_def getitem_def update_conv' Let_def
           split: option.splits reply.splits if_splits)

lemma submissions_Nil: "submissions [] = []"
  by (simp add: submissions_def)

lemma submissions_append: "submissions (xs @ ys) = submissions xs @ submissions ys"
  by (simp add: submissions_def)

lemma submissions_get_records: "get_records P config s t = (res, tr) \<Longrightarrow> submissions tr = []"
  by (auto simp: get_records_def submissions_def get_hosts_request_def split: prod.splits sum.splits
      dest!: make_namecheap_request_events)

lemma submissions_get_current: "get_current P a config = (res, tr) \<Longrightarrow> submissions tr = []"
  by (auto simp: get_current_def split: prod.splits sum.splits dest: submissions_get_records)

lemma submissions_remove: "remove_unused_records current new = (b, t) \<Longrightarrow> submissions t = []"
  by (auto simp add: remove_unused_records_def remove_unused_loop_eq submissions_def filter_empty_conv)

lemma submissions_add: "add_new_records current new = (b, t) \<Longrightarrow> submissions t = []"
  by (auto simp add: add_new_records_def add_new_loop_eq submissions_def filter_empty_conv)

lemma do_import_events:
  assumes "get_current P a config = (Inr current, t1)" and "get_new a = Inr new"
  shows "snd (do_import P a config) =
           t1 @ snd (remove_unused_records current new) @ snd (add_new_records current new) @
           (if fst (remove_unused_records current new) \<and> fst (add_new_records current new) \<and> \<not> dryrun a
            then snd (make_namecheap_request P config (build_data a new)) else [])"
  using assms by (auto simp: do_import_def Let_def split: prod.splits sum.splits)

lemma do_import_submissions:
  assumes "get_current P a config = (Inr current, t1)" and "get_new a = Inr new"
  shows "submissions (snd (do_import P a config)) =
           (if fst (remove_unused_records current new) \<and> fst (add_new_records current new) \<and> \<not> dryrun a
            then submissions (snd (make_namecheap_request P config (build_data a new))) else [])"
proof -
  have 1: "submissions t1 = []" using assms(1) by (rule submissions_get_current)
  have 2: "submissions (snd (remove_unused_records current new)) = []"
    by (rule submissions_remove [OF surjective_pairing])
  have 3: "submissions (snd (add_new_records current new)) = []"
    by (rule submissions_add [OF surjective_pairing])
  show ?thesis
    by (simp add: do_import_events [OF assms] submissions_append submissions_Nil 1 2 3)
qed

lemma do_import_early_events:
  "get_current P a config = (Inl e, t1) \<Longrightarrow> do_import P a config = (Inl e, t1)"
  "get_current P a config = (Inr current, t1) \<Longrightarrow> get_new a = Inl e \<Longrightarrow> do_import P a config = (Inl e, t1)"
  by (auto simp: do_import_def)

section \<open>The differ\<close>

text \<open>
  Claim C6. For every pair of collections, \<^const>\<open>remove_unused_records\<close> reports (prints
  \<^verbatim>\<open>Removing\<close> for) exactly the records of \<open>current\<close> whose identity is not a key of
  \<open>new\<close>, and \<^const>\<open>add_new_records\<close> reports exactly the records of \<open>new\<close> whose
  identity is not a key of \<open>current\<close>; the flag each returns is true if and only if the
  corresponding difference of the key sets is not empty.
\<close>

theorem differ_is_set_difference:
  "remove_unused_records current new =
     (fst ` set current - fst ` set new \<noteq> {},
      map (\<lambda>p. Removing (snd p)) (filter (\<lambda>p. fst p \<notin> fst ` set new) current))
   \<and> add_new_records current new =
     (fst ` set new - fst ` set current \<noteq> {},
      map (\<lambda>p. Adding (snd p)) (filter (\<lambda>p. fst p \<notin> fst ` set current) new))"
  by (auto simp: remove_unused_records_def add_new_records_def remove_unused_loop_eq add_new_loop_eq)

theorem differ_is_set_difference_witness:
  "remove_unused_records [(ident_www, current_www)] [(ident_mail, rec_mail)] = (True, [Removing current_www])
   \<and> add_new_records [(ident_www, current_www)] [(ident_mail, rec_mail)] = (True, [Adding rec_mail])
   \<and> remove_unused_records [(ident_www, current_www)] [] = (True, [Removing current_www])
   \<and> add_new_records [] [(ident_mail, rec_mail)] = (True, [Adding rec_mail])"
proof -
  have ne: "ident_www \<noteq> ident_mail" by code_simp
  show ?thesis
    using differ_is_set_difference [of "[(ident_www, current_www)]" "[(ident_mail, rec_mail)]"]
      differ_is_set_difference [of "[(ident_www, current_www)]" "[]"]
      differ_is_set_difference [of "[]" "[(ident_mail, rec_mail)]"] ne
    by simp
qed

section \<open>Dry runs\<close>

text \<open>
  Claim C9. A run of \<^const>\<open>do_import\<close> with \<^verbatim>\<open>--dryrun\<close> posts no write request,
  whatever the provider, the configuration and the desired records are.
\<close>

theorem dryrun_never_submits:
  "dryrun a \<Longrightarrow> submissions (snd (do_import P a config)) = []"
proof -
  assume d: "dryrun a"
  obtain r t1 where gc: "get_current P a config = (r, t1)" by (cases "get_current P a config")
  have t1: "submissions t1 = []" using gc by (rule submissions_get_current)
  show ?thesis
  proof (cases r)
    case (Inl e)
    then show ?thesis using gc t1 by (simp add: do_import_early_events(1))
  next
    case (Inr current)
    show ?thesis
    proof (cases "get_new a")
      case (Inl e)
      then show ?thesis using gc Inr t1 by (simp add: do_import_early_events(2))
    next
      case (Inr new)
      then show ?thesis using gc \<open>r = Inr current\<close> d by (simp add: do_import_submissions submissions_Nil)
    qed
  qed
qed

theorem dryrun_never_submits_witness:
  "dryrun (example_args True [rec_mail])
   \<and> do_import example_provider (example_args True [rec_mail]) example_config =
       (Inr (), [Post example_read_request, Removing current_www, Adding rec_mail])
   \<and> submissions (snd (do_import example_provider (example_args True [rec_mail]) example_config)) = []"
proof -
  have h: "dryrun (example_args True [rec_mail])" by (simp add: example_args_def)
  have run: "do_import example_provider (example_args True [rec_mail]) example_config =
       (Inr (), [Post example_read_request, Removing current_www, Adding rec_mail])"
    by code_simp
  show ?thesis
    using h run dryrun_never_submits [OF h, of example_provider example_config] by simp
qed

section \<open>When the write request is posted\<close>

text \<open>
  Claim C1. With the provider holding one record and an empty desired set, a run without
  \<^verbatim>\<open>--dryrun\<close> finds a removal (\<^const>\<open>remove_unused_records\<close> returns true and prints
  the record) and no addition, and returns at
  \<^verbatim>\<open>if not updated_removed or not updated_added: return\<close>: no write request is posted.
\<close>

theorem teardown_run_submits_nothing:
  "get_new (example_args False []) = Inr []
   \<and> get_current example_provider (example_args False []) example_config =
       (Inr [(ident_www, current_www)], [Post example_read_request])
   \<and> remove_unused_records [(ident_www, current_www)] [] = (True, [Removing current_www])
   \<and> add_new_records [(ident_www, current_www)] [] = (False, [])
   \<and> do_import example_provider (example_args False []) example_config =
       (Inr (), [Post example_read_request, Removing current_www])
   \<and> submissions (snd (do_import example_provider (example_args False []) example_config)) = []"
  by code_simp

theorem teardown_run_submits_nothing_witness:
  "remove_unused_records [(ident_www, current_www)] [] = (True, [Removing current_www])
   \<and> submissions (snd (do_import example_provider (example_args False []) example_config)) = []"
  using teardown_run_submits_nothing by blast

section \<open>Loading the desired set\<close>

lemma pop_Inr_iff: "pop k d = Inr (v, d') \<longleftrightarrow> map_of d k = Some v \<and> d' = AList.delete k d"
  by (auto simp: pop_def split: option.splits)

lemma pop_Inl_iff: "pop k d = Inl e \<longleftrightarrow> map_of d k = None \<and> e = KeyError k"
  by (auto simp: pop_def split: option.splits)

lemma dict_hash_eq:
  "dict_hash d =
     (case map_of d ''HostName'' of
        None \<Rightarrow> Inl (KeyError ''HostName'')
      | Some name \<Rightarrow>
          (case map_of d ''RecordType'' of
             None \<Rightarrow> Inl (KeyError ''RecordType'')
           | Some type_ \<Rightarrow>
               Inr (type_, name, json_dumps (AList.delete ''RecordType'' (AList.delete ''HostName'' d)))))"
  by (simp add: dict_hash_def pop_def split: option.splits)

lemma dict_hash_Inr_iff:
  "(\<exists>k. dict_hash d = Inr k) \<longleftrightarrow> map_of d ''HostName'' \<noteq> None \<and> map_of d ''RecordType'' \<noteq> None"
  by (auto simp: dict_hash_eq split: option.splits)

lemma dict_hash_Inl:
  "dict_hash d = Inl e \<Longrightarrow> e = KeyError ''HostName'' \<or> e = KeyError ''RecordType''"
  by (auto simp: dict_hash_eq split: option.splits)

lemma dict_by_hash_Inl:
  "dict_by_hash rs acc = Inl e \<Longrightarrow> \<exists>r\<in>set rs. dict_hash r = Inl e"
  by (induction rs arbitrary: acc) (auto split: sum.splits)

lemma dict_by_hash_total:
  "\<forall>r\<in>set rs. \<exists>k. dict_hash r = Inr k \<Longrightarrow> \<exists>m. dict_by_hash rs acc = Inr m"
  by (induction rs arbitrary: acc) (auto split: sum.splits)

lemma dict_by_hash_distinct:
  "dict_by_hash rs acc = Inr m \<Longrightarrow> distinct (map fst acc) \<Longrightarrow> distinct (map fst m)"
  by (induction rs arbitrary: acc) (auto split: sum.splits simp: distinct_update)

lemma dict_by_hash_keys:
  "dict_by_hash rs acc = Inr m \<Longrightarrow>
     fst ` set m = fst ` set acc \<union> {k. \<exists>r\<in>set rs. dict_hash r = Inr k}"
proof (induction rs arbitrary: acc)
  case Nil
  then show ?case by simp
next
  case (Cons r rs)
  then obtain k where k: "dict_hash r = Inr k" and
    rest: "dict_by_hash rs (AList.update k r acc) = Inr m"
    by (auto split: sum.splits)
  show ?case
    using Cons.IH [OF rest] k by (auto simp: dom_update)
qed

lemma dict_by_hash_lookup:
  "dict_by_hash rs acc = Inr m \<Longrightarrow>
     map_of m k = (case filter (\<lambda>r. dict_hash r = Inr k) rs of
                     [] \<Rightarrow> map_of acc k | x # xs \<Rightarrow> Some (last (x # xs)))"
proof (induction rs arbitrary: acc)
  case Nil
  then show ?case by simp
next
  case (Cons r rs)
  then obtain k0 where k0: "dict_hash r = Inr k0" and
    rest: "dict_by_hash rs (AList.update k0 r acc) = Inr m"
    by (auto split: sum.splits)
  show ?case
    using Cons.IH [OF rest] k0 by (auto simp: update_conv' split: list.splits)
qed

lemma dict_by_hash_items_Mapping:
  "dict_by_hash_items (map Mapping rs) acc = dict_by_hash rs acc"
  by (induction rs arbitrary: acc) (auto split: sum.splits)

lemma mappings_Mapping: "mappings (map Mapping rs) = rs"
  by (induction rs) auto

lemma dict_by_hash_items_Inr:
  "dict_by_hash_items its acc = Inr m \<Longrightarrow> its = map Mapping (mappings its)"
  by (induction its acc rule: dict_by_hash_items.induct) (auto split: sum.splits)

lemma dict_by_hash_items_Inl:
  "dict_by_hash_items its acc = Inl e \<Longrightarrow> \<exists>it\<in>set its. dict_by_hash_items [it] [] = Inl e"
  by (induction its acc rule: dict_by_hash_items.induct) (auto split: sum.splits)

lemma get_new_Items:
  "input_file a = Items (map Mapping rs) \<Longrightarrow> get_new a = dict_by_hash rs []"
  by (simp add: get_new_def dict_by_hash_items_Mapping)

lemma get_new_Inr:
  assumes "get_new a = Inr new"
  shows "input_file a = Items (map Mapping (document_records (input_file a)))
         \<and> dict_by_hash (document_records (input_file a)) [] = Inr new"
proof (cases "input_file a")
  case (Items its)
  then have l: "dict_by_hash_items its [] = Inr new" using assms by (simp add: get_new_def)
  then have its: "its = map Mapping (mappings its)" by (rule dict_by_hash_items_Inr)
  then have "dict_by_hash (mappings its) [] = Inr new"
    using l dict_by_hash_items_Mapping [of "mappings its" "[]"] by simp
  then show ?thesis using Items its by simp
qed (use assms in \<open>simp_all add: get_new_def\<close>)

lemma get_new_Inl:
  assumes "get_new a = Inl e"
  shows "(input_file a = Malformed \<and> e = YAMLError) \<or> (input_file a = NotIterable \<and> e = TypeError)
         \<or> (\<exists>its. input_file a = Items its \<and> (\<exists>it\<in>set its. dict_by_hash_items [it] [] = Inl e))"
proof (cases "input_file a")
  case (Items its)
  then have "dict_by_hash_items its [] = Inl e" using assms by (simp add: get_new_def)
  then show ?thesis using Items dict_by_hash_items_Inl by blast
qed (use assms in \<open>simp_all add: get_new_def\<close>)

section \<open>Errors of the load\<close>

lemma get_current_events:
  "get_current P a config = (Inr current, t) \<Longrightarrow>
     \<exists>request. t = [Post request] \<and>
        map_of request ''Command'' = Some (JStr ''namecheap.domains.dns.getHosts'')"
  by (auto simp: get_current_def get_records_def make_namecheap_request_def getitem_def
        get_hosts_request_def update_conv' Let_def
      split: prod.splits sum.splits option.splits reply.splits if_splits)

text \<open>
  Claim C2, as amended. Two desired records that canonicalize to the same identity raise
  no error, and there is no duplicate-identity error: a document that is a sequence of
  records each of which has an identity is loaded, whether or not an identity occurs more
  than once, and every error of \<^const>\<open>get_new\<close> is the error of the document as a whole
  (malformed, or not iterable) or the error that one of its items gives on its own. The
  desired set is loaded after the current records were read: when \<^const>\<open>get_current\<close>
  has succeeded, the read request has been posted, and an error of the load then ends the
  run with that error and no further request.
\<close>

theorem duplicates_raise_no_error:
  "(input_file a = Items (map Mapping rs) \<and> (\<forall>r\<in>set rs. \<exists>k. dict_hash r = Inr k) \<longrightarrow>
      (\<exists>new. get_new a = Inr new \<and> fst ` set new = {k. \<exists>r\<in>set rs. dict_hash r = Inr k}))
   \<and> (get_new a = Inl e \<longrightarrow>
        (input_file a = Malformed \<and> e = YAMLError) \<or> (input_file a = NotIterable \<and> e = TypeError)
        \<or> (\<exists>its. input_file a = Items its \<and> (\<exists>it\<in>set its. dict_by_hash_items [it] [] = Inl e)))
   \<and> (get_current P a config = (Inr current, t) \<longrightarrow>
        (\<exists>request. t = [Post request] \<and>
           map_of request ''Command'' = Some (JStr ''namecheap.domains.dns.getHosts'')) \<and>
        (get_new a = Inl e \<longrightarrow> do_import P a config = (Inl e, t)))"
proof (intro conjI impI)
  assume h: "input_file a = Items (map Mapping rs) \<and> (\<forall>r\<in>set rs. \<exists>k. dict_hash r = Inr k)"
  then obtain new where new: "dict_by_hash rs [] = Inr new"
    using dict_by_hash_total by blast
  have "fst ` set new = {k. \<exists>r\<in>set rs. dict_hash r = Inr k}"
    using dict_by_hash_keys [OF new] by simp
  then show "\<exists>new. get_new a = Inr new \<and> fst ` set new = {k. \<exists>r\<in>set rs. dict_hash r = Inr k}"
    using new h get_new_Items [of a rs] by simp
next
  assume "get_new a = Inl e"
  then show "(input_file a = Malformed \<and> e = YAMLError) \<or> (input_file a = NotIterable \<and> e = TypeError)
        \<or> (\<exists>its. input_file a = Items its \<and> (\<exists>it\<in>set its. dict_by_hash_items [it] [] = Inl e))"
    by (rule get_new_Inl)
next
  assume "get_current P a config = (Inr current, t)"
  then show "\<exists>request. t = [Post request] \<and>
           map_of request ''Command'' = Some (JStr ''namecheap.domains.dns.getHosts'')"
    by (rule get_current_events)
next
  assume "get_current P a config = (Inr current, t)" and "get_new a = Inl e"
  then show "do_import P a config = (Inl e, t)" by (rule do_import_early_events(2))
qed

theorem duplicates_raise_no_error_witness:
  "(\<exists>new. get_new (example_args False [rec_mail, rec_mail]) = Inr new
           \<and> fst ` set new = {k. \<exists>r\<in>set [rec_mail, rec_mail]. dict_hash r = Inr k})
   \<and> get_new (example_args False [rec_www, rec_nameless]) = Inl (KeyError ''HostName'')
   \<and> dict_by_hash_items [Mapping rec_nameless] [] = Inl (KeyError ''HostName'')
   \<and> do_import example_provider (example_args False [rec_www, rec_nameless]) example_config =
       (Inl (KeyError ''HostName''), [Post example_read_request])"
proof -
  let ?a = "example_args False [rec_www, rec_nameless]"
  let ?b = "example_args False [rec_mail, rec_mail]"
  have 1: "get_new ?a = Inl (KeyError ''HostName'')" by code_simp
  have 2: "get_current example_provider ?a example_config =
             (Inr [(ident_www, current_www)], [Post example_read_request])" by code_simp
  have 3: "input_file ?b = Items (map Mapping [rec_mail, rec_mail])"
    by (simp add: example_args_def)
  have "dict_hash rec_mail = Inr ident_mail" by code_simp
  then have "\<exists>k. dict_hash rec_mail = Inr k" by (rule exI)
  then have 4: "\<forall>r\<in>set [rec_mail, rec_mail]. \<exists>k. dict_hash r = Inr k" by simp
  have 5: "dict_by_hash_items [Mapping rec_nameless] [] = Inl (KeyError ''HostName'')" by code_simp
  note T = duplicates_raise_no_error [of ?a _ "KeyError ''HostName''" example_provider
      example_config "[(ident_www, current_www)]" "[Post example_read_request]"]
  note U = duplicates_raise_no_error [of ?b "[rec_mail, rec_mail]"]
  have 6: "do_import example_provider ?a example_config =
       (Inl (KeyError ''HostName''), [Post example_read_request])"
    using T [THEN conjunct2, THEN conjunct2, rule_format, OF 2, THEN conjunct2, rule_format, OF 1] .
  have 7: "\<exists>new. get_new ?b = Inr new
           \<and> fst ` set new = {k. \<exists>r\<in>set [rec_mail, rec_mail]. dict_hash r = Inr k}"
    using U [THEN conjunct1, rule_format, OF conjI [OF 3 4]] .
  show ?thesis by (intro conjI 7 1 5 6)
qed

text \<open>
  The claim C2 as stated fails: a document with the same record twice is loaded without
  an error, after the read request, and the run goes on to post the write request.
\<close>

theorem duplicates_load_without_error:
  "get_new (example_args False [rec_mail, rec_mail]) = Inr [(ident_mail, rec_mail)]
   \<and> do_import example_provider (example_args False [rec_mail, rec_mail]) example_config =
       (Inr (), [Post example_read_request, Removing current_www, Adding rec_mail,
                 Post example_write_request])"
  by code_simp

section \<open>Runs that change nothing\<close>




section \<open>The write request\<close>

lemma digit_char_decimal: "d < 10 \<Longrightarrow> digit_char d \<in> set ''0123456789''"
proof -
  assume "d < 10"
  then have "d \<in> {0, 1, 2, 3, 4, 5, 6, 7, 8, 9}" by auto
  then show ?thesis by (auto simp: digit_char_def)
qed

lemma digit_char_inj: "a < 16 \<Longrightarrow> b < 16 \<Longrightarrow> digit_char a = digit_char b \<Longrightarrow> a = b"
proof -
  assume a: "a < 16" and b: "b < 16" and eq: "digit_char a = digit_char b"
  have d: "distinct ''0123456789abcdef''" by simp
  have l: "length ''0123456789abcdef'' = 16" by simp
  show ?thesis
    using eq nth_eq_iff_index_eq [OF d, of a b] a b unfolding digit_char_def l by simp
qed

lemma str_nat_nonempty: "str_nat n \<noteq> []"
  by (subst str_nat.simps) simp

lemma str_nat_digits: "set (str_nat n) \<subseteq> set ''0123456789''"
proof (induction n rule: str_nat.induct)
  case (1 n)
  show ?case
  proof (cases "n < 10")
    case True
    then show ?thesis using digit_char_decimal [of n] by (subst str_nat.simps) simp
  next
    case False
    then have "set (str_nat (n div 10)) \<subseteq> set ''0123456789''" using 1 by simp
    moreover have "digit_char (n mod 10) \<in> set ''0123456789''"
      by (rule digit_char_decimal) simp
    ultimately show ?thesis using False by (subst str_nat.simps) simp
  qed
qed

lemma str_nat_inj: "str_nat n = str_nat m \<Longrightarrow> n = m"
proof (induction n arbitrary: m rule: str_nat.induct)
  case (1 n)
  show ?case
  proof (cases "n < 10")
    case n: True
    show ?thesis
    proof (cases "m < 10")
      case True
      then show ?thesis
        using n "1.prems" digit_char_inj [of n m]
        by (simp add: str_nat.simps [of n] str_nat.simps [of m])
    next
      case False
      then show ?thesis
        using n "1.prems" str_nat_nonempty [of "m div 10"]
        by (simp add: str_nat.simps [of n] str_nat.simps [of m])
    qed
  next
    case n: False
    show ?thesis
    proof (cases "m < 10")
      case True
      then show ?thesis
        using n "1.prems" str_nat_nonempty [of "n div 10"]
        by (simp add: str_nat.simps [of n] str_nat.simps [of m])
    next
      case False
      then have eq: "str_nat (n div 10) = str_nat (m div 10)"
        and dg: "digit_char (n mod 10) = digit_char (m mod 10)"
        using n "1.prems" by (simp_all add: str_nat.simps [of n] str_nat.simps [of m])
      have "n div 10 = m div 10" using "1.IH" [OF n eq] .
      moreover have "n mod 10 = m mod 10"
        using dg by (intro digit_char_inj) simp_all
      ultimately show ?thesis by (metis div_mult_mod_eq)
    qed
  qed
qed

lemma append_suffix_eq:
  assumes eq: "x @ s = y @ t"
    and s: "set s \<subseteq> D" and t: "set t \<subseteq> D"
    and x: "x = [] \<or> last x \<notin> D" and y: "y = [] \<or> last y \<notin> D"
  shows "x = y \<and> s = t"
proof -
  from eq obtain us where us: "(x = y @ us \<and> us @ s = t) \<or> (x @ us = y \<and> s = us @ t)"
    by (auto simp: append_eq_append_conv2)
  then have "us = []"
  proof
    assume h: "x = y @ us \<and> us @ s = t"
    show ?thesis
    proof (rule ccontr)
      assume "us \<noteq> []"
      then have "x \<noteq> []" "last x = last us" "last us \<in> set t" using h by auto
      then show False using x t by auto
    qed
  next
    assume h: "x @ us = y \<and> s = us @ t"
    show ?thesis
    proof (rule ccontr)
      assume "us \<noteq> []"
      then have "y \<noteq> []" "last y = last us" "last us \<in> set s" using h by auto
      then show False using y s by auto
    qed
  qed
  with us show ?thesis by auto
qed

lemma numbered_key_eq:
  assumes "\<not> ends_in_digit k1" and "\<not> ends_in_digit k2"
  shows "k1 @ str_nat n1 = k2 @ str_nat n2 \<longleftrightarrow> k1 = k2 \<and> n1 = n2"
proof
  assume eq: "k1 @ str_nat n1 = k2 @ str_nat n2"
  have "k1 = k2 \<and> str_nat n1 = str_nat n2"
    using eq str_nat_digits [of n1] str_nat_digits [of n2] assms
    unfolding ends_in_digit_def by (intro append_suffix_eq) blast+
  then show "k1 = k2 \<and> n1 = n2" using str_nat_inj by blast
next
  assume "k1 = k2 \<and> n1 = n2"
  then show "k1 @ str_nat n1 = k2 @ str_nat n2" by simp
qed

lemma numbered_key_ends_in_digit: "ends_in_digit (key @ str_nat n)"
proof -
  have "last (str_nat n) \<in> set (str_nat n)" using str_nat_nonempty by (rule last_in_set)
  then have "last (str_nat n) \<in> set ''0123456789''" using str_nat_digits by blast
  then show ?thesis unfolding ends_in_digit_def using str_nat_nonempty by simp
qed


lemma keys_add_record:
  "fst ` set (add_record num rec data) = fst ` set data \<union> (\<lambda>key. key @ str_nat num) ` fst ` set rec"
  by (induction num rec data rule: add_record.induct) (auto simp: dom_update)

lemma map_of_add_record_other:
  "k \<notin> (\<lambda>key. key @ str_nat num) ` fst ` set rec \<Longrightarrow> map_of (add_record num rec data) k = map_of data k"
  by (induction num rec data rule: add_record.induct) (auto simp: update_conv')

lemma map_of_add_record:
  "distinct (map fst rec) \<Longrightarrow> (key, v) \<in> set rec \<Longrightarrow>
     map_of (add_record num rec data) (key @ str_nat num) = Some v"
proof (induction num rec data rule: add_record.induct)
  case (1 num data)
  then show ?case by simp
next
  case (2 num key' v' items data)
  show ?case
  proof (cases "(key, v) \<in> set items")
    case True
    then show ?thesis using 2 by simp
  next
    case False
    then have eq: "key' = key" "v' = v" using "2.prems" by auto
    have "key \<notin> fst ` set items" using "2.prems" eq by auto
    then have "key @ str_nat num \<notin> (\<lambda>key. key @ str_nat num) ` fst ` set items" by auto
    then show ?thesis using eq by (simp add: map_of_add_record_other update_conv')
  qed
qed

lemma keys_add_records:
  "fst ` set (add_records num recs data) =
     fst ` set data \<union> {key @ str_nat (num + i) | i key. i < length recs \<and> key \<in> fst ` set (recs ! i)}"
proof (induction num recs data rule: add_records.induct)
  case (1 num data)
  then show ?case by simp
next
  case (2 num r rs data)
  have "{key @ str_nat (num + i) | i key. i < length (r # rs) \<and> key \<in> fst ` set ((r # rs) ! i)}
      = (\<lambda>key. key @ str_nat num) ` fst ` set r
        \<union> {key @ str_nat (Suc num + i) | i key. i < length rs \<and> key \<in> fst ` set (rs ! i)}"
    (is "?L = ?R")
  proof (intro set_eqI iffI)
    fix x assume "x \<in> ?L"
    then obtain i key where x: "x = key @ str_nat (num + i)" and i: "i < length (r # rs)"
      and k: "key \<in> fst ` set ((r # rs) ! i)" by blast
    show "x \<in> ?R"
    proof (cases i)
      case 0
      then show ?thesis using x k by auto
    next
      case (Suc j)
      then have "x = key @ str_nat (Suc num + j)" "j < length rs" "key \<in> fst ` set (rs ! j)"
        using x i k by auto
      then show ?thesis by blast
    qed
  next
    fix x assume "x \<in> ?R"
    then consider (a) "x \<in> (\<lambda>key. key @ str_nat num) ` fst ` set r"
      | (b) i key where "x = key @ str_nat (Suc num + i)" "i < length rs" "key \<in> fst ` set (rs ! i)"
      by blast
    then show "x \<in> ?L"
    proof cases
      case a
      then obtain key where "x = key @ str_nat (num + 0)" "key \<in> fst ` set ((r # rs) ! 0)"
        by auto
      then show ?thesis by (intro CollectI exI [of _ 0] exI [of _ key]) simp
    next
      case b
      then have "x = key @ str_nat (num + Suc i)" "Suc i < length (r # rs)"
        "key \<in> fst ` set ((r # rs) ! Suc i)" by auto
      then show ?thesis by blast
    qed
  qed
  then show ?case using 2 by (simp add: keys_add_record Un_assoc)
qed

lemma map_of_add_records_other:
  "\<forall>i<length recs. \<forall>key\<in>fst ` set (recs ! i). key @ str_nat (num + i) \<noteq> k \<Longrightarrow>
     map_of (add_records num recs data) k = map_of data k"
proof (induction num recs data rule: add_records.induct)
  case (1 num data)
  then show ?case by simp
next
  case (2 num r rs data)
  have a: "\<forall>i<length rs. \<forall>key\<in>fst ` set (rs ! i). key @ str_nat (Suc num + i) \<noteq> k"
  proof (intro allI impI ballI)
    fix i key assume "i < length rs" "key \<in> fst ` set (rs ! i)"
    then show "key @ str_nat (Suc num + i) \<noteq> k"
      using "2.prems" [rule_format, of "Suc i" key] by simp
  qed
  have b: "k \<notin> (\<lambda>key. key @ str_nat num) ` fst ` set r"
    using "2.prems" [rule_format, of 0] by auto
  show ?case using "2.IH" [OF a] b by (simp add: map_of_add_record_other)
qed

lemma map_of_add_records:
  assumes "\<forall>rec\<in>set recs. distinct (map fst rec) \<and> (\<forall>key\<in>fst ` set rec. \<not> ends_in_digit key)"
    and "i < length recs" and "(key, v) \<in> set (recs ! i)"
  shows "map_of (add_records num recs data) (key @ str_nat (num + i)) = Some v"
  using assms
proof (induction num recs data arbitrary: i rule: add_records.induct)
  case (1 num data)
  then show ?case by simp
next
  case (2 num r rs data)
  have nd: "\<not> ends_in_digit key"
    using "2.prems" nth_mem [of i "r # rs"] by (metis fst_conv image_eqI)
  show ?case
  proof (cases i)
    case 0
    then have here: "map_of (add_record num r data) (key @ str_nat num) = Some v"
      using "2.prems" by (simp add: map_of_add_record)
    have "\<forall>j<length rs. \<forall>key'\<in>fst ` set (rs ! j). key' @ str_nat (Suc num + j) \<noteq> key @ str_nat num"
    proof (intro allI impI ballI)
      fix j key' assume j: "j < length rs" and k': "key' \<in> fst ` set (rs ! j)"
      then have "\<not> ends_in_digit key'" using "2.prems"(1) nth_mem [OF j] by auto
      then show "key' @ str_nat (Suc num + j) \<noteq> key @ str_nat num"
        using nd by (simp add: numbered_key_eq)
    qed
    then show ?thesis using here 0 by (simp add: map_of_add_records_other)
  next
    case (Suc j)
    then have "map_of (add_records (Suc num) rs (add_record num r data))
                 (key @ str_nat (Suc num + j)) = Some v"
      using "2.prems" by (intro "2.IH") auto
    then show ?thesis using Suc by simp
  qed
qed

lemma remdups_drop_dup: "k \<in> set Y \<Longrightarrow> remdups (X @ k # Y) = remdups (X @ Y)"
  by (induction X) auto

lemma first_occurrences_distinct: "distinct xs \<Longrightarrow> rev (remdups (rev xs)) = xs"
  by (simp add: distinct_remdups_id)

lemma dict_by_hash_order:
  "dict_by_hash rs acc = Inr m \<Longrightarrow> distinct (map fst acc) \<Longrightarrow>
     map Inr (map fst m) = rev (remdups (rev (map Inr (map fst acc) @ map dict_hash rs)))"
proof (induction rs arbitrary: acc)
  case Nil
  then have "distinct (map Inr (map fst m) :: (error + ident) list)"
    by (simp add: distinct_map inj_on_def)
  then show ?case using Nil by (simp add: distinct_remdups_id)
next
  case (Cons r rs)
  then obtain k where k: "dict_hash r = Inr k" and
    rest: "dict_by_hash rs (AList.update k r acc) = Inr m"
    by (auto split: sum.splits)
  have d: "distinct (map fst (AList.update k r acc))" using Cons.prems by (simp add: distinct_update)
  note IH = Cons.IH [OF rest d]
  show ?case
  proof (cases "k \<in> set (map fst acc)")
    case False
    then show ?thesis using IH k by (simp add: update_keys)
  next
    case True
    then have "(Inr k :: error + ident) \<in> set (rev (map Inr (map fst acc)))" by auto
    then have "remdups (rev (map dict_hash rs) @ Inr k # rev (map Inr (map fst acc)))
             = remdups (rev (map dict_hash rs) @ rev (map Inr (map fst acc)))"
      by (rule remdups_drop_dup)
    then show ?thesis using IH k True by (simp add: update_keys)
  qed
qed

lemma snd_update_subset: "snd ` set (AList.update k v al) \<subseteq> insert v (snd ` set al)"
  by (induction al) auto

lemma dict_by_hash_values:
  "dict_by_hash rs acc = Inr m \<Longrightarrow> snd ` set m \<subseteq> snd ` set acc \<union> set rs"
proof (induction rs arbitrary: acc)
  case Nil
  then show ?case by simp
next
  case (Cons r rs)
  then obtain k where k: "dict_hash r = Inr k" and
    rest: "dict_by_hash rs (AList.update k r acc) = Inr m"
    by (auto split: sum.splits)
  have gen: "A \<subseteq> B \<union> C \<Longrightarrow> B \<subseteq> insert x D \<Longrightarrow> A \<subseteq> D \<union> insert x C" for A B C D :: "'z set" and x
    by blast
  have "snd ` set m \<subseteq> snd ` set acc \<union> insert r (set rs)"
    using Cons.IH [OF rest] snd_update_subset [of k r acc] by (rule gen)
  then show ?case by simp
qed

lemma build_data_header:
  "k \<in> {''Command'', ''SLD'', ''TLD''} \<Longrightarrow> map_of (build_data a new) k = map_of (set_hosts_header a) k"
proof -
  assume k: "k \<in> {''Command'', ''SLD'', ''TLD''}"
  then have "\<not> ends_in_digit k" by (auto simp: ends_in_digit_def)
  have "\<forall>i<length (map snd new). \<forall>key\<in>fst ` set (map snd new ! i). key @ str_nat (1 + i) \<noteq> k"
  proof (intro allI impI ballI notI)
    fix i key assume "key @ str_nat (1 + i) = k"
    then have "ends_in_digit k" using numbered_key_ends_in_digit [of key "1 + i"] by simp
    then show False using \<open>\<not> ends_in_digit k\<close> by simp
  qed
  then show ?thesis unfolding build_data_def by (rule map_of_add_records_other)
qed

lemma make_namecheap_request_Inr:
  assumes "make_namecheap_request P config data = (Inr hosts, t)"
  shows "\<exists>u1 u2 u3 u4. getitem config ''ApiUser'' = Inr u1 \<and> getitem config ''UserName'' = Inr u2
           \<and> getitem config ''ApiKey'' = Inr u3 \<and> getitem config ''ClientIP'' = Inr u4"
proof -
  have 1: "\<exists>u. getitem config ''ApiUser'' = Inr u"
    using assms by (cases "getitem config ''ApiUser''") (simp_all add: make_namecheap_request_def)
  then have 2: "\<exists>u. getitem config ''UserName'' = Inr u"
    using assms by (cases "getitem config ''UserName''") (auto simp add: make_namecheap_request_def)
  then have 3: "\<exists>u. getitem config ''ApiKey'' = Inr u"
    using assms 1 by (cases "getitem config ''ApiKey''") (auto simp add: make_namecheap_request_def)
  then have 4: "\<exists>u. getitem config ''ClientIP'' = Inr u"
    using assms 1 2 by (cases "getitem config ''ClientIP''") (auto simp add: make_namecheap_request_def)
  show ?thesis using 1 2 3 4 by blast
qed

lemma get_current_request_Inr:
  assumes "get_current P a config = (Inr current, t)"
  shows "\<exists>hosts. make_namecheap_request P config (get_hosts_request (sld a) (tld a)) = (Inr hosts, t)"
proof -
  obtain r t' where gr: "get_records P config (sld a) (tld a) = (r, t')"
    by (cases "get_records P config (sld a) (tld a)")
  then have t': "t' = t" and "\<exists>recs. r = Inr recs"
    using assms by (cases r; simp add: get_current_def)+
  obtain m t'' where mk: "make_namecheap_request P config (get_hosts_request (sld a) (tld a)) = (m, t'')"
    by (cases "make_namecheap_request P config (get_hosts_request (sld a) (tld a))")
  then have "t'' = t'" and "\<exists>hosts. m = Inr hosts"
    using gr \<open>\<exists>recs. r = Inr recs\<close> by (cases m; auto simp add: get_records_def)+
  then show ?thesis using mk t' by auto
qed

lemma make_namecheap_request_posts:
  assumes "get_current P a config = (Inr current, t)"
  shows "\<exists>request. snd (make_namecheap_request P config data) = [Post request] \<and>
           (\<forall>k. k \<notin> {''ApiUser'', ''UserName'', ''ApiKey'', ''ClientIP''} \<longrightarrow>
                map_of request k = map_of data k)"
proof -
  from get_current_request_Inr [OF assms] make_namecheap_request_Inr obtain u1 u2 u3 u4 where
    u: "getitem config ''ApiUser'' = Inr u1" "getitem config ''UserName'' = Inr u2"
    "getitem config ''ApiKey'' = Inr u3" "getitem config ''ClientIP'' = Inr u4"
    by blast
  define request where "request = AList.update ''ClientIP'' u4 (AList.update ''ApiKey'' u3
      (AList.update ''UserName'' u2 (AList.update ''ApiUser'' u1 data)))"
  have "snd (make_namecheap_request P config data) = [Post request]"
    using u by (cases "P request") (simp_all add: make_namecheap_request_def request_def Let_def)
  moreover have "\<forall>k. k \<notin> {''ApiUser'', ''UserName'', ''ApiKey'', ''ClientIP''} \<longrightarrow>
                map_of request k = map_of data k"
    by (simp add: request_def update_conv')
  ultimately show ?thesis by blast
qed

text \<open>
  Claim C3, as amended. The request data built for a desired mapping \<open>new\<close> holds every
  record of \<open>new\<close>, the whole desired set and not only the records to add: the fields of
  the \<open>i\<close>-th record are stored under their names followed by the number \<open>i\<close>, counted
  from 1, beside \<^verbatim>\<open>Command\<close>, \<^verbatim>\<open>SLD\<close> and \<^verbatim>\<open>TLD\<close> and nothing else (for
  records with distinct field names none of which ends in a digit). The records are
  numbered in the order of the mapping, which is the order in which the identities first
  occur in the desired-state document; they are not sorted by identity. When a removal and
  an addition were found and the run is not a dry run, this data, with the four
  credentials, is the one write request of the run.
\<close>

theorem build_data_enumerates_desired:
  assumes gn: "get_new a = Inr new"
    and wf: "\<forall>r\<in>set (document_records (input_file a)).
               distinct (map fst r) \<and> (\<forall>key\<in>fst ` set r. \<not> ends_in_digit key)"
  shows "map Inr (map fst new) = rev (remdups (rev (map dict_hash (document_records (input_file a)))))
     \<and> (\<forall>i<length new. \<forall>key v. (key, v) \<in> set (snd (new ! i)) \<longrightarrow>
            map_of (build_data a new) (key @ str_nat (Suc i)) = Some v)
     \<and> fst ` set (build_data a new) =
          {''Command'', ''SLD'', ''TLD''}
          \<union> {key @ str_nat (Suc i) | i key. i < length new \<and> key \<in> fst ` set (snd (new ! i))}
     \<and> (\<forall>P config current t.
           get_current P a config = (Inr current, t) \<and> fst (remove_unused_records current new)
           \<and> fst (add_new_records current new) \<and> \<not> dryrun a \<longrightarrow>
           (\<exists>request. submissions (snd (do_import P a config)) = [Post request] \<and>
              (\<forall>k. k \<notin> {''ApiUser'', ''UserName'', ''ApiKey'', ''ClientIP''} \<longrightarrow>
                   map_of request k = map_of (build_data a new) k)))"
proof (intro conjI allI impI)
  show "map Inr (map fst new) = rev (remdups (rev (map dict_hash (document_records (input_file a)))))"
    using dict_by_hash_order [of "document_records (input_file a)" "[]" new] get_new_Inr [OF gn]
    by simp
next
  fix i key v assume i: "i < length new" and kv: "(key, v) \<in> set (snd (new ! i))"
  have "snd ` set new \<subseteq> set (document_records (input_file a))"
    using dict_by_hash_values [of "document_records (input_file a)" "[]" new] get_new_Inr [OF gn]
    by simp
  then have "\<forall>rec\<in>set (map snd new). distinct (map fst rec) \<and> (\<forall>key\<in>fst ` set rec. \<not> ends_in_digit key)"
    using wf by auto
  then have "map_of (add_records 1 (map snd new) (set_hosts_header a)) (key @ str_nat (1 + i)) = Some v"
    using i kv by (intro map_of_add_records) simp_all
  then show "map_of (build_data a new) (key @ str_nat (Suc i)) = Some v"
    by (simp add: build_data_def)
next
  show "fst ` set (build_data a new) =
          {''Command'', ''SLD'', ''TLD''}
          \<union> {key @ str_nat (Suc i) | i key. i < length new \<and> key \<in> fst ` set (snd (new ! i))}"
  proof -
    have "{key @ str_nat (Suc i) | i key. i < length new \<and> key \<in> fst ` set (map snd new ! i)}
        = {key @ str_nat (Suc i) | i key. i < length new \<and> key \<in> fst ` set (snd (new ! i))}"
      by (intro Collect_cong ex_cong1 conj_cong refl iffI) simp_all
    then show ?thesis
      by (simp add: build_data_def keys_add_records set_hosts_header_def insert_commute)
  qed
next
  fix P config current t
  assume h: "get_current P a config = (Inr current, t) \<and> fst (remove_unused_records current new)
           \<and> fst (add_new_records current new) \<and> \<not> dryrun a"
  then have gc: "get_current P a config = (Inr current, t)" by simp
  obtain request where
    rq: "snd (make_namecheap_request P config (build_data a new)) = [Post request]" and
    same: "\<forall>k. k \<notin> {''ApiUser'', ''UserName'', ''ApiKey'', ''ClientIP''} \<longrightarrow>
                   map_of request k = map_of (build_data a new) k"
    using make_namecheap_request_posts [OF gc] by blast
  have "map_of request ''Command'' = map_of (set_hosts_header a) ''Command''"
    using same build_data_header [of "''Command''" a new] by simp
  then have "is_submission (Post request)" by (simp add: set_hosts_header_def)
  then have "submissions [Post request] = [Post request]" by (simp add: submissions_def)
  moreover have "submissions (snd (do_import P a config)) =
      submissions (snd (make_namecheap_request P config (build_data a new)))"
    using h by (simp only: do_import_submissions [OF gc gn] if_True simp_thms)
  ultimately have "submissions (snd (do_import P a config)) = [Post request]"
    by (simp only: rq)
  then show "\<exists>request. submissions (snd (do_import P a config)) = [Post request] \<and>
              (\<forall>k. k \<notin> {''ApiUser'', ''UserName'', ''ApiKey'', ''ClientIP''} \<longrightarrow>
                   map_of request k = map_of (build_data a new) k)"
    using same by blast
qed


theorem build_data_enumerates_desired_witness:
  "get_new (example_args False [rec_www_new, rec_mail]) =
     Inr [(ident_www_new, rec_www_new), (ident_mail, rec_mail)]
   \<and> map_of (build_data (example_args False [rec_www_new, rec_mail])
                [(ident_www_new, rec_www_new), (ident_mail, rec_mail)]) (''Address'' @ str_nat (Suc 0))
       = Some (JStr ''5.6.7.8'')
   \<and> map_of (build_data (example_args False [rec_www_new, rec_mail])
                [(ident_www_new, rec_www_new), (ident_mail, rec_mail)]) (''Address'' @ str_nat (Suc 1))
       = Some (JStr ''1.2.3.5'')
   \<and> (\<exists>request. submissions (snd (do_import example_provider
          (example_args False [rec_www_new, rec_mail]) example_config)) = [Post request])"
proof -
  let ?a = "example_args False [rec_www_new, rec_mail]"
  let ?new = "[(ident_www_new, rec_www_new), (ident_mail, rec_mail)]"
  have gn: "get_new ?a = Inr ?new" by code_simp
  have wf: "\<forall>r\<in>set (document_records (input_file ?a)).
              distinct (map fst r) \<and> (\<forall>key\<in>fst ` set r. \<not> ends_in_digit key)"
    by (simp add: example_args_def rec_www_new_def rec_mail_def ends_in_digit_def)
  have gc: "get_current example_provider ?a example_config =
              (Inr [(ident_www, current_www)], [Post example_read_request])" by code_simp
  have rm: "fst (remove_unused_records [(ident_www, current_www)] ?new)" by code_simp
  have ad: "fst (add_new_records [(ident_www, current_www)] ?new)" by code_simp
  have dr: "\<not> dryrun ?a" by (simp add: example_args_def)
  note T = build_data_enumerates_desired [OF gn wf]
  note look = T [THEN conjunct2, THEN conjunct1, rule_format]
  note post = T [THEN conjunct2, THEN conjunct2, THEN conjunct2, rule_format]
  have m1: "(''Address'', JStr ''5.6.7.8'') \<in> set (snd (?new ! 0))" by (simp add: rec_www_new_def)
  have m2: "(''Address'', JStr ''1.2.3.5'') \<in> set (snd (?new ! 1))" by (simp add: rec_mail_def)
  have l0: "0 < length ?new" by simp
  have l1: "1 < length ?new" by simp
  have 1: "map_of (build_data ?a ?new) (''Address'' @ str_nat (Suc 0)) = Some (JStr ''5.6.7.8'')"
    by (rule look [OF l0 m1])
  have 2: "map_of (build_data ?a ?new) (''Address'' @ str_nat (Suc 1)) = Some (JStr ''1.2.3.5'')"
    by (rule look [OF l1 m2])
  obtain request where
    "submissions (snd (do_import example_provider ?a example_config)) = [Post request]"
    using post [OF conjI [OF gc conjI [OF rm conjI [OF ad dr]]]] by (elim exE conjE)
  then have 3: "\<exists>request. submissions (snd (do_import example_provider ?a example_config)) = [Post request]"
    by (rule exI)
  show ?thesis by (intro conjI gn 1 2 3)
qed

text \<open>
  The claim C3 as stated fails: for a document with the record of \<^verbatim>\<open>www\<close> before the
  record of \<^verbatim>\<open>mail\<close> the write request has \<^verbatim>\<open>www\<close> as record 1 and
  \<^verbatim>\<open>mail\<close> as record 2, and the identity of \<^verbatim>\<open>mail\<close> is the smaller one.
\<close>

theorem payload_in_document_order:
  "get_new (example_args False [rec_www_new, rec_mail]) =
     Inr [(ident_www_new, rec_www_new), (ident_mail, rec_mail)]
   \<and> do_import example_provider (example_args False [rec_www_new, rec_mail]) example_config =
       (Inr (), [Post example_read_request, Removing current_www, Adding rec_www_new,
                 Adding rec_mail, Post example_write_request2])
   \<and> map_of example_write_request2 ''HostName1'' = Some (JStr ''www'')
   \<and> map_of example_write_request2 ''HostName2'' = Some (JStr ''mail'')
   \<and> ident_mail < ident_www_new
   \<and> \<not> sorted [ident_www_new, ident_mail]"
  by code_simp

section \<open>Records with the same identity in the plan\<close>

lemma build_data_lookup:
  assumes "\<forall>rec\<in>snd ` set new. distinct (map fst rec) \<and> (\<forall>key\<in>fst ` set rec. \<not> ends_in_digit key)"
    and "i < length new" and "(key, v) \<in> set (snd (new ! i))"
  shows "map_of (build_data a new) (key @ str_nat (Suc i)) = Some v"
proof -
  have "\<forall>rec\<in>set (map snd new). distinct (map fst rec) \<and> (\<forall>key\<in>fst ` set rec. \<not> ends_in_digit key)"
    using assms(1) by simp
  then have "map_of (add_records 1 (map snd new) (set_hosts_header a)) (key @ str_nat (1 + i)) = Some v"
    using assms(2,3) by (intro map_of_add_records) simp_all
  then show ?thesis by (simp add: build_data_def)
qed

lemma build_data_keys:
  "fst ` set (build_data a new) =
     {''Command'', ''SLD'', ''TLD''}
     \<union> {key @ str_nat (Suc i) | i key. i < length new \<and> key \<in> fst ` set (snd (new ! i))}"
proof -
  have "{key @ str_nat (Suc i) | i key. i < length new \<and> key \<in> fst ` set (map snd new ! i)}
      = {key @ str_nat (Suc i) | i key. i < length new \<and> key \<in> fst ` set (snd (new ! i))}"
    by (intro Collect_cong ex_cong1 conj_cong refl iffI) simp_all
  then show ?thesis
    by (simp add: build_data_def keys_add_records set_hosts_header_def insert_commute)
qed

lemma do_import_posts_data:
  assumes gc: "get_current P a config = (Inr current, t)" and gn: "get_new a = Inr new"
    and rm: "fst (remove_unused_records current new)" and ad: "fst (add_new_records current new)"
    and dr: "\<not> dryrun a"
  shows "\<exists>request.
           snd (do_import P a config) =
             t @ snd (remove_unused_records current new) @ snd (add_new_records current new)
               @ [Post request]
           \<and> (\<forall>k. k \<notin> {''ApiUser'', ''UserName'', ''ApiKey'', ''ClientIP''} \<longrightarrow>
                 map_of request k = map_of (build_data a new) k)"
proof -
  obtain request where
    rq: "snd (make_namecheap_request P config (build_data a new)) = [Post request]" and
    same: "\<forall>k. k \<notin> {''ApiUser'', ''UserName'', ''ApiKey'', ''ClientIP''} \<longrightarrow>
                   map_of request k = map_of (build_data a new) k"
    using make_namecheap_request_posts [OF gc, where data = "build_data a new"]
    by (elim exE conjE)
  have "snd (do_import P a config) =
          t @ snd (remove_unused_records current new) @ snd (add_new_records current new)
            @ [Post request]"
    using rm ad dr by (simp only: do_import_events [OF gc gn] rq simp_thms if_True)
  then show ?thesis using same by (intro exI conjI)
qed

text \<open>
  Claim C10. When the desired-state document is a sequence of records that have their
  \<^verbatim>\<open>HostName\<close> and \<^verbatim>\<open>RecordType\<close>, \<^const>\<open>get_new\<close> returns a mapping and no
  error, also when several records have the same identity: the mapping has exactly one
  entry for each identity that occurs in the document, and the record stored under an
  identity is the last record of the document with that identity. The plan is built from
  this mapping: the request data holds the fields of its \<open>i\<close>-th record under their names
  followed by \<open>i\<close>, and nothing beside these and \<^verbatim>\<open>Command\<close>, \<^verbatim>\<open>SLD\<close> and
  \<^verbatim>\<open>TLD\<close>, so that the plan has exactly one record for each identity (the field names
  of a record being distinct and not ending in a digit). When a removal and an addition
  were found and the run is not a dry run, the run prints the removals and the additions,
  no warning, and then posts this data, with the four credentials, as its write request.
\<close>

theorem duplicates_keep_last_in_plan:
  assumes doc: "input_file a = Items (map Mapping rs)"
    and ok: "\<forall>r\<in>set rs. map_of r ''HostName'' \<noteq> None \<and> map_of r ''RecordType'' \<noteq> None"
    and wf: "\<forall>r\<in>set rs. distinct (map fst r) \<and> (\<forall>key\<in>fst ` set r. \<not> ends_in_digit key)"
  shows "\<exists>new. get_new a = Inr new
      \<and> distinct (map fst new)
      \<and> fst ` set new = {k. \<exists>r\<in>set rs. dict_hash r = Inr k}
      \<and> length new = card {k. \<exists>r\<in>set rs. dict_hash r = Inr k}
      \<and> (\<forall>k. map_of new k =
             (case filter (\<lambda>r. dict_hash r = Inr k) rs of
                [] \<Rightarrow> None | x # xs \<Rightarrow> Some (last (x # xs))))
      \<and> (\<forall>i<length new. \<forall>key v. (key, v) \<in> set (snd (new ! i)) \<longrightarrow>
             map_of (build_data a new) (key @ str_nat (Suc i)) = Some v)
      \<and> fst ` set (build_data a new) =
           {''Command'', ''SLD'', ''TLD''}
           \<union> {key @ str_nat (Suc i) | i key. i < length new \<and> key \<in> fst ` set (snd (new ! i))}
      \<and> (\<forall>P config current t.
            get_current P a config = (Inr current, t) \<and> fst (remove_unused_records current new)
            \<and> fst (add_new_records current new) \<and> \<not> dryrun a \<longrightarrow>
            (\<exists>request.
               snd (do_import P a config) =
                 t @ snd (remove_unused_records current new) @ snd (add_new_records current new)
                   @ [Post request]
               \<and> (\<forall>k. k \<notin> {''ApiUser'', ''UserName'', ''ApiKey'', ''ClientIP''} \<longrightarrow>
                     map_of request k = map_of (build_data a new) k)))"
proof -
  have "\<forall>r\<in>set rs. \<exists>k. dict_hash r = Inr k" using ok dict_hash_Inr_iff by blast
  then obtain new where new: "dict_by_hash rs [] = Inr new"
    using dict_by_hash_total by blast
  have gn: "get_new a = Inr new" using get_new_Items [OF doc] new by simp
  have d: "distinct (map fst new)" using dict_by_hash_distinct [OF new] by simp
  have keys: "fst ` set new = {k. \<exists>r\<in>set rs. dict_hash r = Inr k}"
    using dict_by_hash_keys [OF new] by simp
  have "card (set (map fst new)) = length (map fst new)" using d by (rule distinct_card)
  then have len: "length new = card {k. \<exists>r\<in>set rs. dict_hash r = Inr k}"
    using keys by simp
  have look: "\<forall>k. map_of new k =
             (case filter (\<lambda>r. dict_hash r = Inr k) rs of
                [] \<Rightarrow> None | x # xs \<Rightarrow> Some (last (x # xs)))"
    using dict_by_hash_lookup [OF new] by (simp split: list.splits)
  have "snd ` set new \<subseteq> set rs" using dict_by_hash_values [OF new] by simp
  then have wf': "\<forall>rec\<in>snd ` set new. distinct (map fst rec) \<and> (\<forall>key\<in>fst ` set rec. \<not> ends_in_digit key)"
    using wf by (meson subsetD)
  have pay: "\<forall>i<length new. \<forall>key v. (key, v) \<in> set (snd (new ! i)) \<longrightarrow>
             map_of (build_data a new) (key @ str_nat (Suc i)) = Some v"
    using build_data_lookup [OF wf'] by (intro allI impI)
  have post: "\<forall>P config current t.
            get_current P a config = (Inr current, t) \<and> fst (remove_unused_records current new)
            \<and> fst (add_new_records current new) \<and> \<not> dryrun a \<longrightarrow>
            (\<exists>request.
               snd (do_import P a config) =
                 t @ snd (remove_unused_records current new) @ snd (add_new_records current new)
                   @ [Post request]
               \<and> (\<forall>k. k \<notin> {''ApiUser'', ''UserName'', ''ApiKey'', ''ClientIP''} \<longrightarrow>
                     map_of request k = map_of (build_data a new) k))"
  proof (intro allI impI)
    fix P config current t
    assume h: "get_current P a config = (Inr current, t) \<and> fst (remove_unused_records current new)
            \<and> fst (add_new_records current new) \<and> \<not> dryrun a"
    show "\<exists>request.
               snd (do_import P a config) =
                 t @ snd (remove_unused_records current new) @ snd (add_new_records current new)
                   @ [Post request]
               \<and> (\<forall>k. k \<notin> {''ApiUser'', ''UserName'', ''ApiKey'', ''ClientIP''} \<longrightarrow>
                     map_of request k = map_of (build_data a new) k)"
      by (rule do_import_posts_data [OF h [THEN conjunct1] gn h [THEN conjunct2, THEN conjunct1]
            h [THEN conjunct2, THEN conjunct2, THEN conjunct1]
            h [THEN conjunct2, THEN conjunct2, THEN conjunct2]])
  qed
  show ?thesis
    by (rule exI [of _ new]) (intro conjI gn d keys len look pay build_data_keys post)
qed

theorem duplicates_keep_last_in_plan_witness:
  "get_new (example_args False [rec_mail, rec_www_new, rec_mail2]) =
     Inr [(ident_mail, rec_mail2), (ident_www_new, rec_www_new)]
   \<and> length [(ident_mail, rec_mail2), (ident_www_new, rec_www_new)]
       = card {k. \<exists>r\<in>set [rec_mail, rec_www_new, rec_mail2]. dict_hash r = Inr k}
   \<and> map_of (build_data (example_args False [rec_mail, rec_www_new, rec_mail2])
               [(ident_mail, rec_mail2), (ident_www_new, rec_www_new)]) (''HostName'' @ str_nat (Suc 0))
       = Some (JStr ''mail'')
   \<and> ''HostName'' @ str_nat (Suc 2)
       \<notin> fst ` set (build_data (example_args False [rec_mail, rec_www_new, rec_mail2])
               [(ident_mail, rec_mail2), (ident_www_new, rec_www_new)])
   \<and> (\<exists>request.
         snd (do_import example_provider (example_args False [rec_mail, rec_www_new, rec_mail2])
                example_config)
         = [Post example_read_request]
           @ snd (remove_unused_records [(ident_www, current_www)]
                    [(ident_mail, rec_mail2), (ident_www_new, rec_www_new)])
           @ snd (add_new_records [(ident_www, current_www)]
                    [(ident_mail, rec_mail2), (ident_www_new, rec_www_new)])
           @ [Post request])
   \<and> do_import example_provider (example_args False [rec_mail, rec_www_new, rec_mail2])
         example_config =
       (Inr (), [Post example_read_request, Removing current_www, Adding rec_mail2,
                 Adding rec_www_new, Post example_write_request4])"
proof -
  let ?rs = "[rec_mail, rec_www_new, rec_mail2]"
  let ?a = "example_args False ?rs"
  let ?new = "[(ident_mail, rec_mail2), (ident_www_new, rec_www_new)]"
  let ?cur = "[(ident_www, current_www)]"
  have doc: "input_file ?a = Items (map Mapping ?rs)" by (simp add: example_args_def)
  have ok: "\<forall>r\<in>set ?rs. map_of r ''HostName'' \<noteq> None \<and> map_of r ''RecordType'' \<noteq> None"
    by (simp add: rec_mail_def rec_mail2_def rec_www_new_def)
  have wf: "\<forall>r\<in>set ?rs. distinct (map fst r) \<and> (\<forall>key\<in>fst ` set r. \<not> ends_in_digit key)"
    by (simp add: rec_mail_def rec_mail2_def rec_www_new_def ends_in_digit_def)
  have gn: "get_new ?a = Inr ?new" by code_simp
  have gc: "get_current example_provider ?a example_config = (Inr ?cur, [Post example_read_request])"
    by code_simp
  have rm: "fst (remove_unused_records ?cur ?new)" by code_simp
  have ad: "fst (add_new_records ?cur ?new)" by code_simp
  have dr: "\<not> dryrun ?a" by (simp add: example_args_def)
  from duplicates_keep_last_in_plan [OF doc ok wf] obtain new where
    n: "get_new ?a = Inr new" and
    len: "length new = card {k. \<exists>r\<in>set ?rs. dict_hash r = Inr k}" and
    pay: "\<forall>i<length new. \<forall>key v. (key, v) \<in> set (snd (new ! i)) \<longrightarrow>
             map_of (build_data ?a new) (key @ str_nat (Suc i)) = Some v" and
    dom: "fst ` set (build_data ?a new) =
           {''Command'', ''SLD'', ''TLD''}
           \<union> {key @ str_nat (Suc i) | i key. i < length new \<and> key \<in> fst ` set (snd (new ! i))}" and
    post: "\<forall>P config current t.
            get_current P ?a config = (Inr current, t) \<and> fst (remove_unused_records current new)
            \<and> fst (add_new_records current new) \<and> \<not> dryrun ?a \<longrightarrow>
            (\<exists>request.
               snd (do_import P ?a config) =
                 t @ snd (remove_unused_records current new) @ snd (add_new_records current new)
                   @ [Post request]
               \<and> (\<forall>k. k \<notin> {''ApiUser'', ''UserName'', ''ApiKey'', ''ClientIP''} \<longrightarrow>
                     map_of request k = map_of (build_data ?a new) k))"
    by (elim exE conjE)
  have new: "new = ?new" using n gn by simp
  have 1: "length ?new = card {k. \<exists>r\<in>set ?rs. dict_hash r = Inr k}"
    using len by (simp only: new)
  have m: "(''HostName'', JStr ''mail'') \<in> set (snd (?new ! 0))" by (simp add: rec_mail2_def)
  have l0: "0 < length ?new" by simp
  have 2: "map_of (build_data ?a ?new) (''HostName'' @ str_nat (Suc 0)) = Some (JStr ''mail'')"
    by (rule pay [unfolded new, rule_format, OF l0 m])
  have 3: "''HostName'' @ str_nat (Suc 2) \<notin> fst ` set (build_data ?a ?new)"
    by code_simp
  obtain request where
    "snd (do_import example_provider ?a example_config)
       = [Post example_read_request] @ snd (remove_unused_records ?cur ?new)
           @ snd (add_new_records ?cur ?new) @ [Post request]"
    using post [unfolded new, rule_format, OF conjI [OF gc conjI [OF rm conjI [OF ad dr]]]]
    by (elim exE conjE)
  then have 4: "\<exists>request. snd (do_import example_provider ?a example_config)
       = [Post example_read_request] @ snd (remove_unused_records ?cur ?new)
           @ snd (add_new_records ?cur ?new) @ [Post request]"
    by (rule exI)
  have run: "do_import example_provider ?a example_config =
       (Inr (), [Post example_read_request, Removing current_www, Adding rec_mail2,
                 Adding rec_www_new, Post example_write_request4])" by code_simp
  show ?thesis by (intro conjI gn 1 2 3 4 run)
qed

section \<open>Export and import again\<close>

lemma map_of_filter_key: "map_of (filter (\<lambda>p. fst p = k) xs) k = map_of xs k"
  by (induction xs) auto

lemma map_of_sort_key: "map_of (sort_key fst d) k = map_of d k"
proof -
  have "map_of (sort_key fst d) k = map_of (filter (\<lambda>p. fst p = k) (sort_key fst d)) k"
    by (simp only: map_of_filter_key)
  also have "\<dots> = map_of (filter (\<lambda>p. fst p = k) d) k"
    by (simp only: sort_key_stable)
  also have "\<dots> = map_of d k" by (simp only: map_of_filter_key)
  finally show ?thesis .
qed

lemma delete_sort_key: "AList.delete k (sort_key fst d) = sort_key fst (AList.delete k d)"
  by (simp add: AList.delete_eq filter_sort)

lemma sort_key_idem: "sort_key f (sort_key f xs) = sort_key f xs"
  by (rule sort_key_id_if_sorted) (rule sorted_sort_key)

lemma json_dumps_sort_key: "json_dumps (sort_key fst d) = json_dumps d"
  by (simp add: json_dumps_def sort_key_idem)

lemma dict_hash_sort_key: "dict_hash (sort_key fst d) = dict_hash d"
  by (simp add: dict_hash_eq map_of_sort_key delete_sort_key json_dumps_sort_key cong: option.case_cong)

lemmas alist_lookup =
  delete_conv' update_conv' fun_upd_apply list.inject char.inject simp_thms if_False if_True
  option.simps

lemma pop_Some: "map_of d k = Some v \<Longrightarrow> pop k d = Inr (v, AList.delete k d)"
  by (simp add: pop_def)

lemma pop_None: "map_of d k = None \<Longrightarrow> pop k d = Inl (KeyError k)"
  by (simp add: pop_def)

lemma getitem_Some: "map_of d k = Some v \<Longrightarrow> getitem d k = Inr v"
  by (simp add: getitem_def)

lemma getitem_None: "map_of d k = None \<Longrightarrow> getitem d k = Inl (KeyError k)"
  by (simp add: getitem_def)

lemma get_records_step_eq:
  "get_records_step r =
     (case map_of r ''Name'' of
        None \<Rightarrow> Inl (KeyError ''Name'')
      | Some name \<Rightarrow>
          (case map_of r ''Type'' of
             None \<Rightarrow> Inl (KeyError ''Type'')
           | Some ty \<Rightarrow>
               (case map_of r ''TTL'' of
                  None \<Rightarrow> Inl (KeyError ''TTL'')
                | Some ttl \<Rightarrow>
                    Inr (let r4 = AList.delete ''IsDDNSEnabled'' (AList.delete ''IsActive''
                                    (AList.update ''HostName'' name (AList.delete ''Name''
                                      (AList.delete ''HostId'' (AList.delete ''FriendlyName''
                                        (AList.delete ''AssociatedAppTitle'' r))))));
                             r7 = AList.update ''RecordType'' ty (AList.delete ''Type''
                                    (if ty \<noteq> JStr ''MX'' then AList.delete ''MXPref'' r4 else r4))
                         in if ttl = JStr ''1800'' then AList.delete ''TTL'' r7 else r7))))"
proof -
  let ?r1 = "pop_default ''HostId'' (pop_default ''FriendlyName''
                      (pop_default ''AssociatedAppTitle'' r))"
  have n1: "map_of ?r1 ''Name'' = map_of r ''Name''"
    by (simp only: pop_default_def alist_lookup)
  show ?thesis
  proof (cases "map_of r ''Name''")
    case None
    have "pop ''Name'' ?r1 = Inl (KeyError ''Name'')" by (rule pop_None) (simp only: n1 None)
    then have "get_records_step r = Inl (KeyError ''Name'')"
      unfolding get_records_step_def Let_def by (simp only: sum.case)
    then show ?thesis using None by simp
  next
    case name: (Some name)
    let ?r2 = "AList.delete ''Name'' ?r1"
    let ?r4 = "pop_default ''IsDDNSEnabled'' (pop_default ''IsActive''
                 (AList.update ''HostName'' name ?r2))"
    have s1: "pop ''Name'' ?r1 = Inr (name, ?r2)" by (rule pop_Some) (simp only: n1 name)
    have t4: "map_of ?r4 ''Type'' = map_of r ''Type''"
      by (simp only: pop_default_def alist_lookup)
    show ?thesis
    proof (cases "map_of r ''Type''")
      case None
      have "getitem ?r4 ''Type'' = Inl (KeyError ''Type'')" by (rule getitem_None) (simp only: t4 None)
      then have "get_records_step r = Inl (KeyError ''Type'')"
        unfolding get_records_step_def Let_def by (simp only: s1 sum.case prod.case)
      then show ?thesis using name None by simp
    next
      case ty: (Some ty)
      let ?r5 = "if ty \<noteq> JStr ''MX'' then pop_default ''MXPref'' ?r4 else ?r4"
      let ?r7 = "AList.update ''RecordType'' ty (AList.delete ''Type'' ?r5)"
      have s2: "getitem ?r4 ''Type'' = Inr ty" by (rule getitem_Some) (simp only: t4 ty)
      have m5: "map_of ?r5 ''Type'' = Some ty"
        by (cases "ty = JStr ''MX''") (simp_all only: pop_default_def alist_lookup ty)
      have s3: "pop ''Type'' ?r5 = Inr (ty, AList.delete ''Type'' ?r5)"
        by (rule pop_Some) (rule m5)
      have t7: "map_of ?r7 ''TTL'' = map_of r ''TTL''"
        by (cases "ty = JStr ''MX''") (simp_all only: pop_default_def alist_lookup)
      have unf: "get_records_step r =
        (case getitem ?r7 ''TTL'' of Inl e \<Rightarrow> Inl e
         | Inr ttl \<Rightarrow> if ttl = JStr ''1800'' then Inr (pop_default ''TTL'' ?r7) else Inr ?r7)"
        unfolding get_records_step_def Let_def by (simp only: s1 s2 s3 sum.case prod.case)
      show ?thesis
      proof (cases "map_of r ''TTL''")
        case None
        have "getitem ?r7 ''TTL'' = Inl (KeyError ''TTL'')" by (rule getitem_None) (simp only: t7 None)
        then have "get_records_step r = Inl (KeyError ''TTL'')"
          by (simp only: unf sum.case)
        then show ?thesis using name ty None by simp
      next
        case (Some ttl)
        have "getitem ?r7 ''TTL'' = Inr ttl" by (rule getitem_Some) (simp only: t7 Some)
        then have "get_records_step r =
            Inr (if ttl = JStr ''1800'' then pop_default ''TTL'' ?r7 else ?r7)"
          by (simp only: unf sum.case if_distrib [of Inr])
        then show ?thesis
          by (simp only: name ty Some option.case Let_def pop_default_def)
      qed
    qed
  qed
qed

lemma get_records_step_keys:
  assumes "get_records_step r = Inr r'"
  shows "map_of r' ''HostName'' \<noteq> None \<and> map_of r' ''RecordType'' \<noteq> None"
proof -
  obtain name where n: "map_of r ''Name'' = Some name"
  proof (cases "map_of r ''Name''")
    case None
    then have "get_records_step r = Inl (KeyError ''Name'')"
      by (simp only: get_records_step_eq option.case)
    then show ?thesis using assms by simp
  qed
  obtain ty where t: "map_of r ''Type'' = Some ty"
  proof (cases "map_of r ''Type''")
    case None
    then have "get_records_step r = Inl (KeyError ''Type'')"
      by (simp only: get_records_step_eq n option.case)
    then show ?thesis using assms by simp
  qed
  obtain ttl where l: "map_of r ''TTL'' = Some ttl"
  proof (cases "map_of r ''TTL''")
    case None
    then have "get_records_step r = Inl (KeyError ''TTL'')"
      by (simp only: get_records_step_eq n t option.case)
    then show ?thesis using assms by simp
  qed
  let ?r4 = "AList.delete ''IsDDNSEnabled'' (AList.delete ''IsActive''
               (AList.update ''HostName'' name (AList.delete ''Name''
                 (AList.delete ''HostId'' (AList.delete ''FriendlyName''
                   (AList.delete ''AssociatedAppTitle'' r))))))"
  let ?r7 = "AList.update ''RecordType'' ty (AList.delete ''Type''
               (if ty \<noteq> JStr ''MX'' then AList.delete ''MXPref'' ?r4 else ?r4))"
  have "get_records_step r = Inr (if ttl = JStr ''1800'' then AList.delete ''TTL'' ?r7 else ?r7)"
    by (simp only: get_records_step_eq n t l option.case Let_def)
  then have r': "r' = (if ttl = JStr ''1800'' then AList.delete ''TTL'' ?r7 else ?r7)"
    using assms by (simp only: sum.inject)
  have "map_of r' ''HostName'' = Some name \<and> map_of r' ''RecordType'' = Some ty"
    unfolding r'
    by (cases "ttl = JStr ''1800''"; cases "ty = JStr ''MX''") (simp_all only: alist_lookup)
  then show ?thesis by simp
qed

lemma get_records_loop_keys:
  "get_records_loop rs = Inr recs \<Longrightarrow>
     \<forall>r\<in>set recs. map_of r ''HostName'' \<noteq> None \<and> map_of r ''RecordType'' \<noteq> None"
proof (induction rs arbitrary: recs)
  case Nil
  then show ?case by simp
next
  case (Cons r rs)
  then obtain r' rs' where s: "get_records_step r = Inr r'" and l: "get_records_loop rs = Inr rs'"
    and e: "recs = r' # rs'"
    by (auto split: sum.splits)
  show ?case using get_records_step_keys [OF s] Cons.IH [OF l] e by simp
qed

lemma hash_all_length: "hash_all rs = Inr ks \<Longrightarrow> length ks = length rs"
  by (induction rs arbitrary: ks) (auto split: sum.splits)

lemma hash_all_total:
  "\<forall>r\<in>set rs. \<exists>k. dict_hash r = Inr k \<Longrightarrow> \<exists>ks. hash_all rs = Inr ks"
  by (induction rs) (auto split: sum.splits)

lemma sorted_by_hash_set:
  assumes "sorted_by_hash records = Inr sorted_records"
  shows "set sorted_records = set records"
proof -
  from assms obtain ks where ks: "hash_all records = Inr ks"
    and s: "sorted_records = map snd (sort_key fst (zip ks records))"
    by (auto simp: sorted_by_hash_def split: sum.splits)
  have "length ks = length records" using ks by (rule hash_all_length)
  then have "snd ` set (zip ks records) = set records"
    by (metis map_snd_zip set_map)
  then show ?thesis using s by simp
qed


lemma same_identities_no_change:
  "fst ` set current = fst ` set new \<Longrightarrow>
     remove_unused_records current new = (False, []) \<and> add_new_records current new = (False, [])"
  by (auto simp: remove_unused_records_def add_new_records_def remove_unused_loop_eq
        add_new_loop_eq filter_empty_conv)

lemma get_records_keys:
  assumes "get_records P config s t = (Inr records, tr)"
  shows "\<forall>r\<in>set records. \<exists>k. dict_hash r = Inr k"
proof -
  obtain m t' where mk: "make_namecheap_request P config (get_hosts_request s t) = (m, t')"
    by (cases "make_namecheap_request P config (get_hosts_request s t)")
  then obtain hosts where "m = Inr hosts"
    using assms by (cases m) (simp_all add: get_records_def)
  then have "get_records_loop (map dict_of_attrib hosts) = Inr records"
    using assms mk by (simp add: get_records_def)
  then have "\<forall>r\<in>set records. map_of r ''HostName'' \<noteq> None \<and> map_of r ''RecordType'' \<noteq> None"
    by (rule get_records_loop_keys)
  then show ?thesis using dict_hash_Inr_iff by blast
qed

text \<open>
  Claim C8. When \<^const>\<open>do_export\<close> succeeds, it has read the current records, made them
  canonical, sorted them by identity and written them with \<^const>\<open>yaml_dump\<close>. Loading
  the written document, unmodified, as the desired set succeeds and gives a collection with
  the identities of the current collection: neither comparison reports anything, and an
  import run with this document against the same provider returns after the read request
  without a write request.
\<close>

theorem export_import_round_trip:
  assumes "do_export P a config = (Inr document, t)"
  shows "\<exists>current new.
           get_current P a config = (Inr current, t)
           \<and> get_new (a\<lparr>input_file := document\<rparr>) = Inr new
           \<and> fst ` set current = fst ` set new
           \<and> remove_unused_records current new = (False, [])
           \<and> add_new_records current new = (False, [])
           \<and> do_import P (a\<lparr>input_file := document\<rparr>) config = (Inr (), t)"
proof -
  obtain g t' where gr: "get_records P config (sld a) (tld a) = (g, t')"
    by (cases "get_records P config (sld a) (tld a)")
  then obtain records where g: "g = Inr records"
    using assms by (cases g) (simp_all add: do_export_def)
  obtain srt where srt: "sorted_by_hash records = Inr srt"
    using assms gr g by (cases "sorted_by_hash records") (simp_all add: do_export_def)
  have t': "t' = t" and doc: "document = yaml_dump srt"
    using assms gr g srt by (simp_all add: do_export_def)
  have rk: "\<forall>r\<in>set records. \<exists>k. dict_hash r = Inr k"
    using gr g by (intro get_records_keys [of P config "sld a" "tld a" records t']) simp
  then obtain current where cur: "dict_by_hash records [] = Inr current"
    using dict_by_hash_total by blast
  have gc: "get_current P a config = (Inr current, t)"
    using gr g cur t' by (simp add: get_current_def)
  have set_srt: "set srt = set records" using srt by (rule sorted_by_hash_set)
  let ?rs = "map (sort_key fst) srt"
  have doc': "input_file (a\<lparr>input_file := document\<rparr>) = Items (map Mapping ?rs)"
    by (simp add: doc yaml_dump_def)
  have dk: "\<forall>d\<in>set ?rs. \<exists>k. dict_hash d = Inr k"
    using rk set_srt by (auto simp: dict_hash_sort_key)
  then obtain new where new: "dict_by_hash ?rs [] = Inr new"
    using dict_by_hash_total by blast
  have gn: "get_new (a\<lparr>input_file := document\<rparr>) = Inr new"
    using new get_new_Items [OF doc'] by simp
  have "{k. \<exists>d\<in>set ?rs. dict_hash d = Inr k} = {k. \<exists>r\<in>set records. dict_hash r = Inr k}"
    using set_srt by (auto simp: dict_hash_sort_key)
  then have keys: "fst ` set current = fst ` set new"
    using dict_by_hash_keys [OF cur] dict_by_hash_keys [OF new] by simp
  note diff = same_identities_no_change [OF keys]
  have gc': "get_current P (a\<lparr>input_file := document\<rparr>) config = (Inr current, t)"
    using gc by (simp add: get_current_def)
  have run: "do_import P (a\<lparr>input_file := document\<rparr>) config = (Inr (), t)"
    using gc' gn diff by (simp add: do_import_def)
  show ?thesis
    by (intro exI [of _ current] exI [of _ new] conjI gc gn keys
          diff [THEN conjunct1] diff [THEN conjunct2] run)
qed

theorem export_import_round_trip_witness:
  "do_export example_provider2 (example_args False []) example_config =
     (Inr (Items [Mapping current_www, Mapping exported_mx]), [Post example_read_request])
   \<and> (\<exists>current new.
         get_current example_provider2 (example_args False []) example_config
           = (Inr current, [Post example_read_request])
         \<and> get_new (example_args False [current_www, exported_mx]) = Inr new
         \<and> remove_unused_records current new = (False, [])
         \<and> add_new_records current new = (False, []))
   \<and> do_import example_provider2 (example_args False [current_www, exported_mx]) example_config =
       (Inr (), [Post example_read_request])"
proof -
  have ex: "do_export example_provider2 (example_args False []) example_config =
     (Inr (Items [Mapping current_www, Mapping exported_mx]), [Post example_read_request])"
    by code_simp
  have a: "(example_args False [])\<lparr>input_file := Items [Mapping current_www, Mapping exported_mx]\<rparr>
             = example_args False [current_www, exported_mx]"
    by (simp add: example_args_def)
  from export_import_round_trip [OF ex] obtain current new where
    1: "get_current example_provider2 (example_args False []) example_config
           = (Inr current, [Post example_read_request])" and
    2: "get_new ((example_args False [])\<lparr>input_file := Items [Mapping current_www, Mapping exported_mx]\<rparr>)
          = Inr new" and
    3: "remove_unused_records current new = (False, [])" and
    4: "add_new_records current new = (False, [])" and
    5: "do_import example_provider2
          ((example_args False [])\<lparr>input_file := Items [Mapping current_www, Mapping exported_mx]\<rparr>)
          example_config = (Inr (), [Post example_read_request])"
    by (elim exE conjE)
  have n2: "get_new (example_args False [current_www, exported_mx]) = Inr new"
    using 2 by (simp only: a)
  have 6: "do_import example_provider2 (example_args False [current_www, exported_mx]) example_config =
       (Inr (), [Post example_read_request])"
    using 5 by (simp only: a)
  have 7: "\<exists>current new.
         get_current example_provider2 (example_args False []) example_config
           = (Inr current, [Post example_read_request])
         \<and> get_new (example_args False [current_www, exported_mx]) = Inr new
         \<and> remove_unused_records current new = (False, [])
         \<and> add_new_records current new = (False, [])"
    by (intro exI [of _ current] exI [of _ new] conjI 1 n2 3 4)
  show ?thesis by (intro conjI ex 6 7)
qed

section \<open>The default TTL\<close>

lemma length_join:
  "xs \<noteq> [] \<Longrightarrow> length (join sep xs) + length sep = sum_list (map (\<lambda>x. length x + length sep) xs)"
  by (induction sep xs rule: join.induct) auto

lemma sum_list_insort_key:
  "sum_list (map f (insort_key g x xs)) = (f x :: nat) + sum_list (map f xs)"
  by (induction xs) auto

lemma sum_list_sort_key: "sum_list (map f (sort_key g xs)) = sum_list (map (f :: 'a \<Rightarrow> nat) xs)"
  by (induction xs) (auto simp: sum_list_insort_key)

lemma length_json_dumps:
  "length (json_dumps d) =
     (if d = [] then 2 else sum_list (map (\<lambda>kv. length (json_item kv) + 2) d))"
proof (cases "d = []")
  case True
  then show ?thesis by (simp add: json_dumps_def)
next
  case False
  then have ne: "map json_item (sort_key fst d) \<noteq> []" by (cases d) auto
  have "length (join '', '' (map json_item (sort_key fst d))) + 2
        = sum_list (map (\<lambda>x. length x + 2) (map json_item (sort_key fst d)))"
    using length_join [OF ne, of "'', ''"] by simp
  also have "\<dots> = sum_list (map (\<lambda>kv. length (json_item kv) + 2) (sort_key fst d))"
    by (simp add: comp_def)
  also have "\<dots> = sum_list (map (\<lambda>kv. length (json_item kv) + 2) d)"
    by (rule sum_list_sort_key)
  finally show ?thesis using False by (simp add: json_dumps_def)
qed

lemma sum_list_filter_less:
  fixes f :: "'a \<Rightarrow> nat"
  assumes "\<exists>x\<in>set xs. \<not> P x" and "\<And>x. 0 < f x"
  shows "sum_list (map f (filter P xs)) < sum_list (map f xs)"
  using assms(1)
proof (induction xs)
  case Nil
  then show ?case by simp
next
  case (Cons x xs)
  have le: "sum_list (map f (filter P xs)) \<le> sum_list (map f xs)"
    by (induction xs) auto
  show ?case
  proof (cases "P x")
    case True
    then have "\<exists>y\<in>set xs. \<not> P y" using Cons.prems by auto
    then show ?thesis using Cons.IH True by simp
  next
    case False
    then show ?thesis using le assms(2) [of x] by (simp add: less_Suc_eq_le add_pos_nonneg)
  qed
qed

lemma length_json_dumps_delete:
  assumes "k \<in> fst ` set d"
  shows "length (json_dumps (AList.delete k d)) < length (json_dumps d)"
proof -
  let ?f = "\<lambda>kv. length (json_item kv) + 2"
  have ne: "d \<noteq> []" using assms by auto
  have "\<exists>x\<in>set d. \<not> (\<lambda>p. fst p \<noteq> k) x" using assms by auto
  then have lt: "sum_list (map ?f (filter (\<lambda>p. fst p \<noteq> k) d)) < sum_list (map ?f d)"
    by (rule sum_list_filter_less) simp
  have del: "AList.delete k d = filter (\<lambda>p. fst p \<noteq> k) d"
    by (induction d) auto
  have "2 < sum_list (map ?f d)"
  proof -
    obtain x xs where "d = x # xs" using ne by (cases d) auto
    then show ?thesis by (simp add: json_item_def json_str_def)
  qed
  then show ?thesis using lt
    by (simp only: length_json_dumps del ne if_False split: if_splits) (simp split: if_splits)
qed

lemma dict_hash_delete_differs:
  assumes i: "dict_hash d = Inr i" and k: "map_of d k \<noteq> None"
    and kh: "k \<noteq> ''HostName''" and kr: "k \<noteq> ''RecordType''"
  shows "\<exists>j. dict_hash (AList.delete k d) = Inr j \<and> j \<noteq> i"
proof -
  obtain name ty where n: "map_of d ''HostName'' = Some name" and t: "map_of d ''RecordType'' = Some ty"
    using i by (auto simp: dict_hash_eq split: option.splits)
  let ?rest = "AList.delete ''RecordType'' (AList.delete ''HostName'' d)"
  have hi: "i = (ty, name, json_dumps ?rest)"
    using i by (simp add: dict_hash_eq n t)
  have n': "map_of (AList.delete k d) ''HostName'' = Some name"
    using n kh by (simp add: delete_conv')
  have t': "map_of (AList.delete k d) ''RecordType'' = Some ty"
    using t kr by (simp add: delete_conv')
  have tw: "AList.delete ''RecordType'' (AList.delete ''HostName'' (AList.delete k d))
          = AList.delete k ?rest"
    by (simp only: delete_twist [of _ k])
  have hj: "dict_hash (AList.delete k d) = Inr (ty, name, json_dumps (AList.delete k ?rest))"
    by (simp add: dict_hash_eq n' t' tw)
  have "map_of ?rest k \<noteq> None" using k kh kr by (simp add: delete_conv')
  then have "k \<in> fst ` set ?rest" by (simp add: map_of_eq_None_iff)
  then have "length (json_dumps (AList.delete k ?rest)) < length (json_dumps ?rest)"
    by (rule length_json_dumps_delete)
  then have "json_dumps (AList.delete k ?rest) \<noteq> json_dumps ?rest" by auto
  then show ?thesis using hi hj by simp
qed


lemma get_records_step_record7:
  assumes "map_of r ''Name'' = Some name" and "map_of r ''Type'' = Some ty"
    and "map_of r ''TTL'' = Some ttl"
  shows "get_records_step r =
           Inr (if ttl = JStr ''1800'' then AList.delete ''TTL'' (record7 r name ty)
                else record7 r name ty)"
  by (simp only: get_records_step_eq assms option.case record7_def Let_def)

lemma record7_update_ttl:
  "AList.delete ''TTL'' (record7 (AList.update ''TTL'' ttl r) name ty)
     = AList.delete ''TTL'' (record7 r name ty)"
proof (cases "ty = JStr ''MX''")
  case True
  show ?thesis
    unfolding record7_def Let_def
    by (simp only: True simp_thms if_False delete_twist [of "''TTL''"] delete_update
          delete_update_same list.inject char.inject)
next
  case False
  show ?thesis
    unfolding record7_def Let_def
    by (simp only: False simp_thms if_True delete_twist [of "''TTL''"] delete_update
          delete_update_same list.inject char.inject)
qed

lemma record7_ttl_lookup:
  "map_of (record7 (AList.update ''TTL'' ttl r) name ty) ''TTL'' = Some ttl"
proof (cases "ty = JStr ''MX''")
  case True
  show ?thesis unfolding record7_def Let_def by (simp only: True simp_thms if_False alist_lookup)
next
  case False
  show ?thesis unfolding record7_def Let_def by (simp only: False simp_thms if_True alist_lookup)
qed

text \<open>
  Claim C4, as amended. The TTL 1800 is elided from the records of the provider only.
  A record of the provider with the TTL \<^verbatim>\<open>"1800"\<close> comes out of the loop of
  \<^verbatim>\<open>get_records\<close> without a TTL field; the same record with any other TTL comes out
  with that TTL and is otherwise the same, and the identities of the two differ. The
  records of the document are not rewritten: the identity of a record with a TTL field,
  whatever its value, differs from the identity of the record without the field, and the
  keys of the desired collection are the identities of the records as they are written.
\<close>

theorem ttl_elided_on_provider_side_only:
  "(map_of r ''TTL'' = Some (JStr ''1800'') \<and> get_records_step r = Inr c \<and> ttl \<noteq> JStr ''1800'' \<longrightarrow>
      map_of c ''TTL'' = None \<and>
      (\<exists>c' i i'. get_records_step (AList.update ''TTL'' ttl r) = Inr c' \<and>
                 map_of c' ''TTL'' = Some ttl \<and> AList.delete ''TTL'' c' = c \<and>
                 dict_hash c = Inr i \<and> dict_hash c' = Inr i' \<and> i' \<noteq> i))
   \<and> (dict_hash d = Inr j \<and> map_of d ''TTL'' \<noteq> None \<longrightarrow>
        (\<exists>j'. dict_hash (AList.delete ''TTL'' d) = Inr j' \<and> j' \<noteq> j))
   \<and> (get_new a = Inr new \<longrightarrow>
        fst ` set new = {k. \<exists>d \<in> set (document_records (input_file a)). dict_hash d = Inr k})"
proof (intro conjI impI)
  assume "dict_hash d = Inr j \<and> map_of d ''TTL'' \<noteq> None"
  then have "\<exists>j'. dict_hash (AList.delete ''TTL'' d) = Inr j' \<and> j' \<noteq> j"
    by (intro dict_hash_delete_differs) simp_all
  then show "\<exists>j'. dict_hash (AList.delete ''TTL'' d) = Inr j' \<and> j' \<noteq> j" .
next
  assume "get_new a = Inr new"
  then have "dict_by_hash (document_records (input_file a)) [] = Inr new"
    by (rule get_new_Inr [THEN conjunct2])
  then have "fst ` set new = fst ` set ([] :: collection)
               \<union> {k. \<exists>d \<in> set (document_records (input_file a)). dict_hash d = Inr k}"
    by (rule dict_by_hash_keys)
  then show "fst ` set new = {k. \<exists>d \<in> set (document_records (input_file a)). dict_hash d = Inr k}"
    by simp
next
  assume a: "map_of r ''TTL'' = Some (JStr ''1800'') \<and> get_records_step r = Inr c \<and> ttl \<noteq> JStr ''1800''"
  then have t: "map_of r ''TTL'' = Some (JStr ''1800'')" and g: "get_records_step r = Inr c"
    and ne: "ttl \<noteq> JStr ''1800''" by simp_all
  obtain name where n: "map_of r ''Name'' = Some name"
  proof (cases "map_of r ''Name''")
    case None
    then have "get_records_step r = Inl (KeyError ''Name'')"
      by (simp only: get_records_step_eq option.case)
    then show ?thesis using g by simp
  qed
  obtain ty where ty: "map_of r ''Type'' = Some ty"
  proof (cases "map_of r ''Type''")
    case None
    then have "get_records_step r = Inl (KeyError ''Type'')"
      by (simp only: get_records_step_eq n option.case)
    then show ?thesis using g by simp
  qed
  let ?r' = "AList.update ''TTL'' ttl r"
  let ?c' = "record7 ?r' name ty"
  have c: "c = AList.delete ''TTL'' (record7 r name ty)"
    using g get_records_step_record7 [OF n ty t] by simp
  have n': "map_of ?r' ''Name'' = Some name" by (simp only: alist_lookup n)
  have ty': "map_of ?r' ''Type'' = Some ty" by (simp only: alist_lookup ty)
  have t': "map_of ?r' ''TTL'' = Some ttl" by (simp only: alist_lookup)
  have g': "get_records_step ?r' = Inr ?c'"
    using get_records_step_record7 [OF n' ty' t'] ne by simp
  have l': "map_of ?c' ''TTL'' = Some ttl" by (rule record7_ttl_lookup)
  have d': "AList.delete ''TTL'' ?c' = c" by (simp only: c record7_update_ttl)
  obtain i' where i': "dict_hash ?c' = Inr i'"
    using get_records_step_keys [OF g'] dict_hash_Inr_iff [of ?c'] by auto
  have "map_of ?c' ''TTL'' \<noteq> None" using l' by simp
  then have "\<exists>i. dict_hash (AList.delete ''TTL'' ?c') = Inr i \<and> i \<noteq> i'"
    by (intro dict_hash_delete_differs i') simp_all
  then obtain i where i: "dict_hash c = Inr i" and ii: "i \<noteq> i'"
    unfolding d' by (elim exE conjE)
  have ii': "i' \<noteq> i" using ii by (rule not_sym)
  show "map_of c ''TTL'' = None" by (simp only: c alist_lookup)
  show "\<exists>c' i i'. get_records_step ?r' = Inr c' \<and>
                 map_of c' ''TTL'' = Some ttl \<and> AList.delete ''TTL'' c' = c \<and>
                 dict_hash c = Inr i \<and> dict_hash c' = Inr i' \<and> i' \<noteq> i"
    by (intro exI conjI) (rule g' l' d' i i' ii')+
qed


text \<open>
  The provider's record \<^verbatim>\<open>www A 1.2.3.4\<close> with the TTLs 1800 and 3600, and the document
  record with the integer TTL 1800.
\<close>

theorem ttl_elided_on_provider_side_only_witness:
  "(map_of current_www ''TTL'' = None
    \<and> (\<exists>c' i i'. get_records_step (AList.update ''TTL'' (JStr ''3600'') (dict_of_attrib example_host))
                   = Inr c' \<and>
                 map_of c' ''TTL'' = Some (JStr ''3600'') \<and> AList.delete ''TTL'' c' = current_www \<and>
                 dict_hash current_www = Inr i \<and> dict_hash c' = Inr i' \<and> i' \<noteq> i))
   \<and> (\<exists>j'. dict_hash (AList.delete ''TTL'' rec_www_ttl) = Inr j' \<and> j' \<noteq> ident_www_ttl)
   \<and> fst ` set [(ident_www_ttl, rec_www_ttl), (ident_www, rec_www)] =
       {k. \<exists>d \<in> set (document_records (input_file (example_args False [rec_www_ttl, rec_www]))).
              dict_hash d = Inr k}"
proof -
  let ?r = "dict_of_attrib example_host"
  let ?a = "example_args False [rec_www_ttl, rec_www]"
  have 1: "map_of ?r ''TTL'' = Some (JStr ''1800'')" by code_simp
  have 2: "get_records_step ?r = Inr current_www" by code_simp
  have 3: "JStr ''3600'' \<noteq> JStr ''1800''" by simp
  have 4: "dict_hash rec_www_ttl = Inr ident_www_ttl" by code_simp
  have 5: "map_of rec_www_ttl ''TTL'' \<noteq> None" by code_simp
  have 6: "get_new ?a = Inr [(ident_www_ttl, rec_www_ttl), (ident_www, rec_www)]" by code_simp
  note T = ttl_elided_on_provider_side_only [of ?r current_www "JStr ''3600''" rec_www_ttl
      ident_www_ttl ?a "[(ident_www_ttl, rec_www_ttl), (ident_www, rec_www)]"]
  note A = T [THEN conjunct1, rule_format, OF conjI [OF 1 conjI [OF 2 3]]]
  note B = T [THEN conjunct2, THEN conjunct1, rule_format, OF conjI [OF 4 5]]
  note C = T [THEN conjunct2, THEN conjunct2, rule_format, OF 6]
  show ?thesis by (intro conjI A B C)
qed

text \<open>
  The claim C4 as stated fails for the records of the document: a record with
  \<^verbatim>\<open>TTL: 1800\<close> and the otherwise identical record without a TTL are loaded under two
  different identities.
\<close>

theorem desired_ttl_1800_is_not_elided:
  "get_new (example_args False [rec_www_ttl, rec_www]) =
     Inr [(ident_www_ttl, rec_www_ttl), (ident_www, rec_www)]
   \<and> dict_hash rec_www_ttl = Inr ident_www_ttl
   \<and> dict_hash (AList.delete ''TTL'' rec_www_ttl) = Inr ident_www
   \<and> ident_www_ttl \<noteq> ident_www"
  by code_simp

end
